theory Spec2Isabelle
  imports Main "HOL-Library.Word" "HOL-Library.Sublist"
begin

text \<open>
  The URL-rewriting pipeline of the bot: \<open>extractUrls\<close> and \<open>processMessage\<close> of the
  message processor, \<open>shortenUrl\<close> and \<open>shortenUrlWithRetry\<close> of urlShortener.js, and
  \<open>MAX_RETRIES\<close> of config.js. Functions that await a remote call take the list of
  effects so far and return it extended; a function that can throw returns a sum, with
  the error on the left.
\<close>

section \<open>JavaScript strings and values\<close>

text \<open>
  A JavaScript string is a sequence of 16-bit code units. The regular expressions of the
  source carry no \<open>u\<close> flag, so they work on code units too, and so do \<open>trim\<close>,
  \<open>includes\<close>, \<open>startsWith\<close> and \<open>replace\<close>.
\<close>

type_synonym jschar = "16 word"
type_synonym jsstring = "jschar list"

definition ascii :: "string \<Rightarrow> jsstring" where
  "ascii s = map of_char s"

text \<open>
  The values a caller can pass where a string is expected. Numbers are only inspected by
  \<open>typeof\<close> and by truthiness, so integers stand for them.
\<close>

datatype jsval = JUndefined | JNull | JBool bool | JNum int | JStr jsstring | JObject

datatype jstype = TUndefined | TObject | TBoolean | TNumber | TString

fun typeof :: "jsval \<Rightarrow> jstype" where
  "typeof JUndefined = TUndefined"
| "typeof JNull = TObject"
| "typeof (JBool b) = TBoolean"
| "typeof (JNum n) = TNumber"
| "typeof (JStr s) = TString"
| "typeof JObject = TObject"

text \<open>\<open>falsy v\<close> is the value of the JavaScript expression \<open>!v\<close>.\<close>

fun falsy :: "jsval \<Rightarrow> bool" where
  "falsy JUndefined = True"
| "falsy JNull = True"
| "falsy (JBool b) = (\<not> b)"
| "falsy (JNum n) = (n = 0)"
| "falsy (JStr s) = (s = [])"
| "falsy JObject = False"

section \<open>The URL pattern\<close>

text \<open>
  The source's pattern, in \<open>processMessage\<close> and again in \<open>extractUrls\<close>:
  \<^verbatim>\<open>/(https?:\/\/[^\s<>"{}|\\^`\[\]]+|ftp:\/\/[^\s<>"{}|\\^`\[\]]+|www\.[^\s<>"{}|\\^`\[\]]+)/gi\<close>

  \<open>isWhiteSpace\<close> is the class \<open>\s\<close> (WhiteSpace and LineTerminator of ECMAScript), which
  is also the set of code units that \<open>String.prototype.trim\<close> strips.
\<close>

definition isWhiteSpace :: "jschar \<Rightarrow> bool" where
  "isWhiteSpace c =
     (c \<in> set [0x09, 0x0A, 0x0B, 0x0C, 0x0D, 0x20, 0xA0, 0x1680,
               0x2028, 0x2029, 0x202F, 0x205F, 0x3000, 0xFEFF]
      \<or> (0x2000 \<le> c \<and> c \<le> 0x200A))"

text \<open>
  The code units the negated class \<^verbatim>\<open>[^\s<>"{}|\\^`\[\]]\<close> rejects: white space and
  \<^verbatim>\<open>< > " { } | \ ^ ` [ ]\<close>.
\<close>

definition isDelimiter :: "jschar \<Rightarrow> bool" where
  "isDelimiter c =
     (isWhiteSpace c
      \<or> c \<in> set [0x3C, 0x3E, 0x22, 0x7B, 0x7D, 0x7C, 0x5C, 0x5E, 0x60, 0x5B, 0x5D])"

text \<open>
  Flag \<open>i\<close> without flag \<open>u\<close> compares code units after \<open>Canonicalize\<close>, which maps a
  code unit to its upper case, except that a code unit of 128 or more is never mapped
  below 128. Every pattern character compared here is ASCII, so only the ASCII part of
  the mapping can make two code units equal, and only that part is written out.
\<close>

definition canonicalize :: "jschar \<Rightarrow> jschar" where
  "canonicalize c = (if 0x61 \<le> c \<and> c \<le> 0x7A then c - 0x20 else c)"

text \<open>
  Matchers take the input from the current position on and return the input that is
  left after the match, or \<open>None\<close> when there is no match.
\<close>

fun matchLiteral :: "jsstring \<Rightarrow> jsstring \<Rightarrow> jsstring option" where
  "matchLiteral [] s = Some s"
| "matchLiteral (p # ps) [] = None"
| "matchLiteral (p # ps) (c # cs) =
     (if canonicalize c = canonicalize p then matchLiteral ps cs else None)"

text \<open>\<^verbatim>\<open>[^...]+\<close>: greedy, at least one code unit, nothing follows it in the pattern.\<close>

definition matchClassPlus :: "jsstring \<Rightarrow> jsstring option" where
  "matchClassPlus s =
     (if takeWhile (\<lambda>c. \<not> isDelimiter c) s = [] then None
      else Some (dropWhile (\<lambda>c. \<not> isDelimiter c) s))"

definition matchTail :: "jsstring \<Rightarrow> jsstring \<Rightarrow> jsstring option" where
  "matchTail sep s =
     (case matchLiteral sep s of None \<Rightarrow> None | Some r \<Rightarrow> matchClassPlus r)"

text \<open>
  \<^verbatim>\<open>https?:\/\/[^...]+\<close>: the optional \<open>s\<close> is greedy, so it is tried first, and the
  matcher backtracks to the empty match when the rest fails.
\<close>

definition matchHttp :: "jsstring \<Rightarrow> jsstring option" where
  "matchHttp s =
     (case matchLiteral (ascii ''http'') s of
        None \<Rightarrow> None
      | Some r \<Rightarrow>
          (case (case matchLiteral (ascii ''s'') r of
                   None \<Rightarrow> None
                 | Some r' \<Rightarrow> matchTail (ascii ''://'') r') of
             Some rest \<Rightarrow> Some rest
           | None \<Rightarrow> matchTail (ascii ''://'') r))"

definition matchFtp :: "jsstring \<Rightarrow> jsstring option" where
  "matchFtp s = matchTail (ascii ''ftp://'') s"

definition matchWww :: "jsstring \<Rightarrow> jsstring option" where
  "matchWww s = matchTail (ascii ''www.'') s"

text \<open>The alternatives are tried from left to right at one position.\<close>

definition urlRegexExec :: "jsstring \<Rightarrow> jsstring option" where
  "urlRegexExec s =
     (case matchHttp s of
        Some rest \<Rightarrow> Some rest
      | None \<Rightarrow> (case matchFtp s of Some rest \<Rightarrow> Some rest | None \<Rightarrow> matchWww s))"

text \<open>
  \<open>String.prototype.match\<close> with a global pattern: the leftmost match from the current
  position is recorded and the search goes on behind it (one code unit further when the
  match is empty); \<open>null\<close> when nothing matched at all.
\<close>

function matchAll :: "jsstring \<Rightarrow> jsstring list" where
  "matchAll [] = []"
| "matchAll (c # cs) =
     (case urlRegexExec (c # cs) of
        None \<Rightarrow> matchAll cs
      | Some rest \<Rightarrow>
          take (length (c # cs) - length rest) (c # cs)
            # (if length rest < length (c # cs) then matchAll rest else matchAll cs))"
  by pat_completeness auto
termination
  by (relation "measure length") auto

definition String_match :: "jsstring \<Rightarrow> jsstring list option" where
  "String_match s = (let ms = matchAll s in if ms = [] then None else Some ms)"

text \<open>\<open>extractUrls\<close> of the source: \<^verbatim>\<open>return message.match(urlRegex) || []\<close>.\<close>

definition extractUrls :: "jsval \<Rightarrow> jsstring list" where
  "extractUrls message =
     (if falsy message \<or> typeof message \<noteq> TString then []
      else (case message of
              JStr s \<Rightarrow> (case String_match s of None \<Rightarrow> [] | Some ms \<Rightarrow> ms)
            | _ \<Rightarrow> []))"

text \<open>\<open>Array.prototype.join\<close> on an array of strings.\<close>

fun join :: "jsstring \<Rightarrow> jsstring list \<Rightarrow> jsstring" where
  "join sep [] = []"
| "join sep [x] = x"
| "join sep (x # y # ys) = x @ sep @ join sep (y # ys)"

section \<open>The remote service and the observable effects\<close>

text \<open>
  \<open>shortenUrl\<close> builds the query string with \<open>URLSearchParams\<close> from the fields
  \<open>api\<close>, \<open>url\<close> and, when the alias is not empty, \<open>alias\<close>. A request is
  recorded by the strings handed to \<open>URLSearchParams\<close>; how they are percent-encoded
  on the wire (a lone surrogate goes out as U+FFFD) is not modelled.
\<close>

record request =
  req_api :: jsstring
  req_url :: jsstring
  req_alias :: "jsstring option"

text \<open>The fields of the JSON body that the source reads; \<open>None\<close> is a missing field.\<close>

record api_data =
  data_status :: "jsstring option"
  data_shortenedUrl :: "jsstring option"
  data_message :: "jsstring option"

text \<open>
  What \<open>axios.get\<close> can do: resolve with a body, reject with \<open>error.response\<close> set (a
  status outside 2xx), reject with only \<open>error.request\<close> set (no response, a timeout),
  or reject with neither (the request could not be set up).
\<close>

datatype http_outcome =
    HttpOk api_data
  | HttpStatusError nat jsstring
  | NoResponse
  | RequestSetupError jsstring

text \<open>
  The errors \<open>shortenUrl\<close> throws: \<^verbatim>\<open>API Error: <status> - <statusText>\<close>, the network
  error, and \<^verbatim>\<open>Error: <message>\<close> (\<open>PlainError\<close> carries the whole message).
\<close>

datatype js_error =
    ApiStatusError nat jsstring
  | NetworkError
  | PlainError jsstring

text \<open>
  The effects in the order they happen: the HTTP requests, the one-second waits of the
  retry wrapper, and the console lines of \<open>processMessage\<close> (the console lines of
  urlShortener.js are left out).
\<close>

datatype event =
    Request request
  | Delay nat
  | FoundUrls nat
  | Processing jsstring
  | Skipping jsstring
  | Replaced jsstring jsstring
  | ShorteningFailed jsstring
  | CaughtError jsstring

fun requests :: "event list \<Rightarrow> request list" where
  "requests [] = []"
| "requests (Request r # es) = r # requests es"
| "requests (e # es) = requests es"

text \<open>
  The remote service answers a request as a function of all the requests received so
  far, the current one last.
\<close>

type_synonym service = "request list \<Rightarrow> http_outcome"

definition axios_get :: "service \<Rightarrow> request \<Rightarrow> event list \<Rightarrow> http_outcome \<times> event list" where
  "axios_get svc req tr = (svc (requests tr @ [req]), tr @ [Request req])"

section \<open>urlShortener.js\<close>

definition MAX_RETRIES :: int where
  "MAX_RETRIES = 3"

definition startsWith :: "jsstring \<Rightarrow> jsstring \<Rightarrow> bool" where
  "startsWith s p = prefix p s"

text \<open>
  What \<open>shortenUrl\<close> makes of the outcome of the request: the body of the \<open>try\<close>
  block behind \<open>axios.get\<close> and the \<open>catch\<close> block. An unsuccessful body throws
  \<^verbatim>\<open>API Error: <data.message || 'Unknown error'>\<close> inside the \<open>try\<close> block, which the
  \<open>catch\<close> block wraps once more.
\<close>

definition apiErrorMessage :: "api_data \<Rightarrow> jsstring" where
  "apiErrorMessage data =
     ascii ''API Error: '' @
       (case data_message data of
          Some m \<Rightarrow> if m \<noteq> [] then m else ascii ''Unknown error''
        | None \<Rightarrow> ascii ''Unknown error'')"

fun responseResult :: "http_outcome \<Rightarrow> js_error + jsstring" where
  "responseResult (HttpOk data) =
     (case data_shortenedUrl data of
        Some short \<Rightarrow>
          if data_status data = Some (ascii ''success'') \<and> short \<noteq> [] then Inr short
          else Inl (PlainError (ascii ''Error: '' @ apiErrorMessage data))
      | None \<Rightarrow> Inl (PlainError (ascii ''Error: '' @ apiErrorMessage data)))"
| "responseResult (HttpStatusError code text) = Inl (ApiStatusError code text)"
| "responseResult NoResponse = Inl NetworkError"
| "responseResult (RequestSetupError msg) = Inl (PlainError (ascii ''Error: '' @ msg))"

definition shortenUrl ::
  "service \<Rightarrow> jsstring \<Rightarrow> jsstring \<Rightarrow> jsstring \<Rightarrow> event list \<Rightarrow> (js_error + jsstring) \<times> event list" where
  "shortenUrl svc url apiKey alias tr =
     (let processedUrl =
            (if \<not> startsWith url (ascii ''http://'') \<and> \<not> startsWith url (ascii ''https://'')
                \<and> \<not> startsWith url (ascii ''ftp://'')
             then ascii ''https://'' @ url else url);
          req = \<lparr>req_api = apiKey, req_url = processedUrl,
                 req_alias = (if alias \<noteq> [] then Some alias else None)\<rparr>;
          (outcome, tr') = axios_get svc req tr
      in (responseResult outcome, tr'))"

text \<open>
  The retry wrapper. The recursive call sits in the \<open>catch\<close> block, so an error of the
  recursive call would leave the function; the result type keeps that path.
\<close>

function shortenUrlWithRetry ::
  "service \<Rightarrow> jsstring \<Rightarrow> jsstring \<Rightarrow> jsstring \<Rightarrow> int \<Rightarrow> event list
     \<Rightarrow> (js_error + jsstring) \<times> event list" where
  "shortenUrlWithRetry svc url apiKey alias retries tr =
     (case shortenUrl svc url apiKey alias tr of
        (Inr short, tr') \<Rightarrow> (Inr short, tr')
      | (Inl err, tr') \<Rightarrow>
          if retries > 0
          then shortenUrlWithRetry svc url apiKey alias (retries - 1) (tr' @ [Delay 1000])
          else (Inr url, tr'))"
  by pat_completeness auto
termination
  by (relation "measure (\<lambda>(svc, url, apiKey, alias, retries, tr). nat retries)") auto

declare shortenUrlWithRetry.simps [simp del]

section \<open>The message processor\<close>

text \<open>
  The module that index.js requires as \<open>./messageProcessor\<close>. \<open>url.trim()\<close> strips
  white space from both ends.
\<close>

definition trim :: "jsstring \<Rightarrow> jsstring" where
  "trim s = rev (dropWhile isWhiteSpace (rev (dropWhile isWhiteSpace s)))"

text \<open>\<open>s.includes(t)\<close>: \<open>t\<close> starts at some position of \<open>s\<close>.\<close>

fun String_includes :: "jsstring \<Rightarrow> jsstring \<Rightarrow> bool" where
  "String_includes [] t = (t = [])"
| "String_includes (c # cs) t = (prefix t (c # cs) \<or> String_includes cs t)"

text \<open>
  \<^verbatim>\<open>cleanUrl.replace(/[.*+?^${}()|[\]\\]/g, '\\$&')\<close> puts a backslash before each of
  \<^verbatim>\<open>. * + ? ^ $ { } ( ) | [ ] \\<close>, the syntax characters of a pattern.
\<close>

definition isSyntaxChar :: "jschar \<Rightarrow> bool" where
  "isSyntaxChar c =
     (c \<in> set [0x2E, 0x2A, 0x2B, 0x3F, 0x5E, 0x24, 0x7B, 0x7D, 0x28, 0x29, 0x7C, 0x5B, 0x5D, 0x5C])"

fun escapeRegExp :: "jsstring \<Rightarrow> jsstring" where
  "escapeRegExp [] = []"
| "escapeRegExp (c # cs) = (if isSyntaxChar c then 0x5C # c # escapeRegExp cs else c # escapeRegExp cs)"

text \<open>
  \<open>new RegExp(source, 'g')\<close> for the sources that \<open>escapeRegExp\<close> can produce: a
  sequence of pattern characters and of syntax characters behind a backslash denotes
  the literal string it spells. Any other source is outside this fragment and gives
  \<open>None\<close>, which \<open>processUrl\<close> treats like a constructor that throws; lemma
  \<open>RegExp_escapeRegExp\<close> below shows that this never happens.
\<close>

fun RegExp :: "jsstring \<Rightarrow> jsstring option" where
  "RegExp [] = Some []"
| "RegExp [c] = (if isSyntaxChar c then None else Some [c])"
| "RegExp (c # d # rest) =
     (if c = 0x5C
      then (if isSyntaxChar d then map_option ((#) d) (RegExp rest) else None)
      else if isSyntaxChar c then None
      else map_option ((#) c) (RegExp (d # rest)))"

text \<open>
  \<open>GetSubstitution\<close> for a pattern without capture groups: in the replacement text
  \<^verbatim>\<open>$$\<close> is a dollar sign, \<^verbatim>\<open>$&\<close> the match, \<^verbatim>\<open>$`\<close> the text before the match and
  \<^verbatim>\<open>$'\<close> the text behind it; every other code unit stands for itself.
\<close>

fun getSubstitution :: "jsstring \<Rightarrow> jsstring \<Rightarrow> jsstring \<Rightarrow> jsstring \<Rightarrow> jsstring" where
  "getSubstitution matched preceding following [] = []"
| "getSubstitution matched preceding following [c] = [c]"
| "getSubstitution matched preceding following (c # d # rest) =
     (if c = 0x24 \<and> d = 0x24 then 0x24 # getSubstitution matched preceding following rest
      else if c = 0x24 \<and> d = 0x60 then preceding @ getSubstitution matched preceding following rest
      else if c = 0x24 \<and> d = 0x26 then matched @ getSubstitution matched preceding following rest
      else if c = 0x24 \<and> d = 0x27 then following @ getSubstitution matched preceding following rest
      else c # getSubstitution matched preceding following (d # rest))"

text \<open>
  \<open>str.replace(regexp, replacement)\<close> with a global pattern that denotes the literal
  \<open>pat\<close>: the matches are found from left to right without overlap (an empty pattern
  matches at every position) and each is replaced by its substitution. \<open>preceding\<close> is the
  part of the string already passed.
\<close>

function replaceScan :: "jsstring \<Rightarrow> jsstring \<Rightarrow> jsstring \<Rightarrow> jsstring \<Rightarrow> jsstring" where
  "replaceScan pat replacement preceding [] =
     (if pat = [] then getSubstitution [] preceding [] replacement else [])"
| "replaceScan pat replacement preceding (c # cs) =
     (if pat = []
      then getSubstitution [] preceding (c # cs) replacement
             @ c # replaceScan pat replacement (preceding @ [c]) cs
      else if prefix pat (c # cs)
      then getSubstitution pat preceding (drop (length pat) (c # cs)) replacement
             @ replaceScan pat replacement (preceding @ pat) (drop (length pat) (c # cs))
      else c # replaceScan pat replacement (preceding @ [c]) cs)"
  by pat_completeness auto
termination
  by (relation "measure (\<lambda>(pat, replacement, preceding, s). length s)") auto

definition String_replace :: "jsstring \<Rightarrow> jsstring \<Rightarrow> jsstring \<Rightarrow> jsstring" where
  "String_replace str pat replacement = replaceScan pat replacement [] str"

text \<open>
  One pass through the body of the \<open>for\<close> loop, on the running message and the effects
  so far. The \<open>catch\<close> block logs and goes on with the next URL.
\<close>

definition processUrl ::
  "service \<Rightarrow> jsstring \<Rightarrow> jsstring \<Rightarrow> jsstring \<times> event list \<Rightarrow> jsstring \<times> event list" where
  "processUrl svc apiKey url st =
     (case st of (processedMessage, tr) \<Rightarrow>
        (let cleanUrl = trim url;
             tr1 = tr @ [Processing cleanUrl]
         in if String_includes cleanUrl (ascii ''linkara.xyz'')
            then (processedMessage, tr1 @ [Skipping cleanUrl])
            else (case shortenUrlWithRetry svc cleanUrl apiKey [] MAX_RETRIES tr1 of
                    (Inl err, tr2) \<Rightarrow> (processedMessage, tr2 @ [CaughtError url])
                  | (Inr shortenedUrl, tr2) \<Rightarrow>
                      if shortenedUrl \<noteq> cleanUrl
                      then (case RegExp (escapeRegExp cleanUrl) of
                              None \<Rightarrow> (processedMessage, tr2 @ [CaughtError url])
                            | Some pat \<Rightarrow>
                                (String_replace processedMessage pat shortenedUrl,
                                 tr2 @ [Replaced cleanUrl shortenedUrl]))
                      else (processedMessage, tr2 @ [ShorteningFailed cleanUrl]))))"

fun processUrls ::
  "service \<Rightarrow> jsstring \<Rightarrow> jsstring list \<Rightarrow> jsstring \<times> event list \<Rightarrow> jsstring \<times> event list" where
  "processUrls svc apiKey [] st = st"
| "processUrls svc apiKey (url # urls) st = processUrls svc apiKey urls (processUrl svc apiKey url st)"

definition processMessage ::
  "service \<Rightarrow> jsval \<Rightarrow> jsstring \<Rightarrow> event list \<Rightarrow> (js_error + jsval) \<times> event list" where
  "processMessage svc message apiKey tr =
     (if falsy message \<or> typeof message \<noteq> TString then (Inr message, tr)
      else (case message of
              JStr s \<Rightarrow>
                (let urls = (case String_match s of None \<Rightarrow> [] | Some ms \<Rightarrow> ms)
                 in if length urls = 0 then (Inr message, tr)
                    else (case processUrls svc apiKey urls (s, tr @ [FoundUrls (length urls)]) of
                            (processedMessage, tr') \<Rightarrow> (Inr (JStr processedMessage), tr')))
            | _ \<Rightarrow> (Inr message, tr)))"

section \<open>Notions used in the statements\<close>

text \<open>
  The request \<open>shortenUrl\<close> sends for a URL: the URL with \<open>https://\<close> put in front
  unless it starts with one of the three schemes, spelled in lower case.
\<close>

definition normalizeUrl :: "jsstring \<Rightarrow> jsstring" where
  "normalizeUrl url =
     (if \<not> startsWith url (ascii ''http://'') \<and> \<not> startsWith url (ascii ''https://'')
         \<and> \<not> startsWith url (ascii ''ftp://'')
      then ascii ''https://'' @ url else url)"

definition requestFor :: "jsstring \<Rightarrow> jsstring \<Rightarrow> jsstring \<Rightarrow> request" where
  "requestFor url apiKey alias =
     \<lparr>req_api = apiKey, req_url = normalizeUrl url,
      req_alias = (if alias \<noteq> [] then Some alias else None)\<rparr>"

text \<open>
  A token is a string that the URL pattern matches from its first to its last code
  unit. \<open>startsLikeUrl\<close> says that a string begins, in any letter case, with one of the
  four openings of the pattern and goes on behind it.
\<close>

definition isToken :: "jsstring \<Rightarrow> bool" where
  "isToken t = (urlRegexExec t = Some [])"

definition schemeChar :: "jschar \<Rightarrow> bool" where
  "schemeChar p = (p \<in> set (ascii ''htpsfw:/.''))"

definition schemes :: "jsstring list" where
  "schemes = [ascii ''https://'', ascii ''http://'', ascii ''ftp://'', ascii ''www.'']"

definition startsLikeUrl :: "jsstring \<Rightarrow> bool" where
  "startsLikeUrl t = (\<exists>sep \<in> set schemes. matchLiteral sep t \<noteq> None \<and> length sep < length t)"

abbreviation nd :: "jschar \<Rightarrow> bool" where
  "nd \<equiv> (\<lambda>c. \<not> isDelimiter c)"

text \<open>Two remote services for concrete runs: one that cannot be reached, one that
  answers every request with the same shortened URL.\<close>

definition unreachable :: service where
  "unreachable h = NoResponse"

definition alwaysReturns :: "jsstring \<Rightarrow> service" where
  "alwaysReturns short h =
     HttpOk \<lparr>data_status = Some (ascii ''success''), data_shortenedUrl = Some short,
             data_message = None\<rparr>"

text \<open>
  The source never computes the host of a URL; the statement about URLs of the
  service's own domain needs one. \<open>hostAsWritten\<close> is the part of a URL token that
  names the host: what follows the first \<open>://\<close> (the whole token when there is none),
  up to the first of \<open>/\<close>, \<open>?\<close> and \<open>#\<close>, without the user information before the
  last \<open>@\<close> and without the port behind the first \<open>:\<close>. Host names do not
  distinguish letter case, so \<open>hostOf\<close>, the host the token names, is that part in
  lower case.
\<close>

fun afterSchemeSeparator :: "jsstring \<Rightarrow> jsstring option" where
  "afterSchemeSeparator [] = None"
| "afterSchemeSeparator (c # cs) =
     (if prefix (ascii ''://'') (c # cs) then Some (drop 3 (c # cs))
      else afterSchemeSeparator cs)"

definition hostAsWritten :: "jsstring \<Rightarrow> jsstring" where
  "hostAsWritten t =
     (let afterScheme = (case afterSchemeSeparator t of Some r \<Rightarrow> r | None \<Rightarrow> t);
          authority = takeWhile (\<lambda>c. c \<noteq> 0x2F \<and> c \<noteq> 0x3F \<and> c \<noteq> 0x23) afterScheme;
          hostPort = rev (takeWhile (\<lambda>c. c \<noteq> 0x40) (rev authority))
      in takeWhile (\<lambda>c. c \<noteq> 0x3A) hostPort)"

definition toLowerAscii :: "jschar \<Rightarrow> jschar" where
  "toLowerAscii c = (if 0x41 \<le> c \<and> c \<le> 0x5A then c + 0x20 else c)"

definition hostOf :: "jsstring \<Rightarrow> jsstring" where
  "hostOf t = map toLowerAscii (hostAsWritten t)"

text \<open>
  The running message and the effects at the head of the loop in \<open>processMessage\<close>,
  when \<open>k\<close> of the extracted URLs have been dealt with.
\<close>

definition loopState ::
  "service \<Rightarrow> jsstring \<Rightarrow> jsstring \<Rightarrow> event list \<Rightarrow> nat \<Rightarrow> jsstring \<times> event list" where
  "loopState svc apiKey m tr k =
     processUrls svc apiKey (take k (extractUrls (JStr m)))
       (m, tr @ [FoundUrls (length (extractUrls (JStr m)))])"

text \<open>
  The shape of the effects of one pass through the loop for the URL \<open>u\<close>: the line
  \<open>Processing URL\<close>, then the requests for \<open>u\<close> with the waits between them, then one
  line that tells what became of \<open>u\<close>.
\<close>

definition isCallFor :: "jsstring \<Rightarrow> event \<Rightarrow> bool" where
  "isCallFor u e =
     (case e of Request r \<Rightarrow> req_url r = normalizeUrl u | Delay n \<Rightarrow> True | _ \<Rightarrow> False)"

definition isOutcomeFor :: "jsstring \<Rightarrow> event \<Rightarrow> bool" where
  "isOutcomeFor u e =
     (case e of
        Skipping v \<Rightarrow> v = u
      | Replaced v short \<Rightarrow> v = u
      | ShorteningFailed v \<Rightarrow> v = u
      | CaughtError v \<Rightarrow> v = u
      | _ \<Rightarrow> False)"

definition iterationOf :: "jsstring \<Rightarrow> event list \<Rightarrow> bool" where
  "iterationOf u seg =
     (case seg of
        Processing v # rest \<Rightarrow>
          v = u \<and> rest \<noteq> [] \<and> list_all (isCallFor u) (butlast rest) \<and> isOutcomeFor u (last rest)
      | _ \<Rightarrow> False)"

section \<open>The URL pattern in closed form\<close>

text \<open>
  The characters of the four openings of the pattern are no delimiters in either letter
  case, so a match is the whole delimiter-free run from its start: the pattern matches
  at a position exactly when the run from there starts like a URL.
\<close>

lemma canonicalize_cases:
  "canonicalize c = canonicalize p \<Longrightarrow> schemeChar p \<Longrightarrow> c = p \<or> c = p - 0x20"
  unfolding canonicalize_def schemeChar_def ascii_def
  apply (simp split: if_splits)
  apply (elim disjE; simp)
  done

lemma schemeChar_not_delim:
  "canonicalize c = canonicalize p \<Longrightarrow> schemeChar p \<Longrightarrow> \<not> isDelimiter c"
  apply (drule (1) canonicalize_cases)
  apply (auto simp: schemeChar_def ascii_def isDelimiter_def isWhiteSpace_def)
  done

lemma matchLiteral_append:
  "matchLiteral (p @ q) s = (case matchLiteral p s of None \<Rightarrow> None | Some r \<Rightarrow> matchLiteral q r)"
  by (induction p s rule: matchLiteral.induct) auto

lemma matchLiteral_Some:
  "matchLiteral pat s = Some r \<Longrightarrow>
     \<exists>x. s = x @ r \<and> length x = length pat \<and> list_all2 (\<lambda>p c. canonicalize c = canonicalize p) pat x"
proof (induction pat s rule: matchLiteral.induct)
  case (1 s)
  then show ?case by simp
next
  case (2 p ps)
  then show ?case by simp
next
  case (3 p ps c cs)
  then obtain x where "cs = x @ r" "length x = length ps"
      "list_all2 (\<lambda>p c. canonicalize c = canonicalize p) ps x" "canonicalize c = canonicalize p"
    by (auto split: if_splits)
  then show ?case by (intro exI [of _ "c # x"]) simp
qed

lemma matchLiteral_takeWhile:
  "\<forall>p \<in> set pat. schemeChar p \<Longrightarrow>
     matchLiteral pat s = Some r \<Longrightarrow>
     takeWhile nd s = take (length pat) s @ takeWhile nd r \<and> dropWhile nd s = dropWhile nd r
       \<and> length s = length pat + length r"
proof (induction pat s rule: matchLiteral.induct)
  case (1 s)
  then show ?case by simp
next
  case (2 p ps)
  then show ?case by simp
next
  case (3 p ps c cs)
  then show ?case by (auto split: if_splits dest: schemeChar_not_delim)
qed

lemma matchLiteral_takeWhile_iff:
  "\<forall>p \<in> set pat. schemeChar p \<Longrightarrow>
     (matchLiteral pat (takeWhile nd s) = None) = (matchLiteral pat s = None)"
proof (induction pat s rule: matchLiteral.induct)
  case (1 s)
  then show ?case by simp
next
  case (2 p ps)
  then show ?case by simp
next
  case (3 p ps c cs)
  then show ?case by (auto split: if_splits dest: schemeChar_not_delim)
qed

lemma matchTail_closed:
  assumes "\<forall>p \<in> set sep. schemeChar p"
  shows "matchTail sep s =
     (if matchLiteral sep (takeWhile nd s) \<noteq> None \<and> length sep < length (takeWhile nd s)
      then Some (dropWhile nd s) else None)"
proof (cases "matchLiteral sep s")
  case None
  with matchLiteral_takeWhile_iff [OF assms, of s] show ?thesis
    by (simp add: matchTail_def)
next
  case (Some r)
  from matchLiteral_takeWhile [OF assms Some]
  have tw: "takeWhile nd s = take (length sep) s @ takeWhile nd r"
    and dw: "dropWhile nd s = dropWhile nd r"
    and len: "length s = length sep + length r" by auto
  have "matchLiteral sep (takeWhile nd s) \<noteq> None"
    using matchLiteral_takeWhile_iff [OF assms, of s] Some by simp
  moreover have "length (takeWhile nd s) = length sep + length (takeWhile nd r)"
    using tw len by simp
  ultimately show ?thesis
    using Some dw by (simp add: matchTail_def matchClassPlus_def)
qed

lemma matchHttp_alt:
  "matchHttp s = (case matchTail (ascii ''https://'') s of
                    Some rest \<Rightarrow> Some rest | None \<Rightarrow> matchTail (ascii ''http://'') s)"
proof -
  have a: "ascii ''https://'' = ascii ''http'' @ ascii ''s'' @ ascii ''://''"
    and b: "ascii ''http://'' = ascii ''http'' @ ascii ''://''"
    by (simp_all add: ascii_def)
  show ?thesis
    unfolding matchHttp_def matchTail_def a b matchLiteral_append
    by (simp split: option.splits)
qed

lemma schemes_chars: "\<forall>sep \<in> set schemes. \<forall>p \<in> set sep. schemeChar p"
  by (simp add: schemes_def schemeChar_def ascii_def)

lemma urlRegexExec_closed:
  "urlRegexExec s = (if startsLikeUrl (takeWhile nd s) then Some (dropWhile nd s) else None)"
proof -
  have c: "\<And>sep. sep \<in> set schemes \<Longrightarrow> matchTail sep s =
     (if matchLiteral sep (takeWhile nd s) \<noteq> None \<and> length sep < length (takeWhile nd s)
      then Some (dropWhile nd s) else None)"
    using schemes_chars by (intro matchTail_closed) blast
  show ?thesis
    unfolding urlRegexExec_def matchHttp_alt matchFtp_def matchWww_def startsLikeUrl_def
    by (simp add: c schemes_def)
qed


lemma startsLikeUrl_append: "startsLikeUrl t \<Longrightarrow> startsLikeUrl (t @ u)"
proof -
  have "\<And>pat. matchLiteral pat t \<noteq> None \<Longrightarrow> matchLiteral pat (t @ u) \<noteq> None"
  proof -
    fix pat show "matchLiteral pat t \<noteq> None \<Longrightarrow> matchLiteral pat (t @ u) \<noteq> None"
      by (induction pat t rule: matchLiteral.induct) (auto split: if_splits)
  qed
  then show "startsLikeUrl t \<Longrightarrow> startsLikeUrl (t @ u)"
    unfolding startsLikeUrl_def by fastforce
qed

lemma isToken_iff: "isToken t = (startsLikeUrl t \<and> (\<forall>c \<in> set t. nd c))"
proof
  assume "isToken t"
  then have "startsLikeUrl (takeWhile nd t)" and "dropWhile nd t = []"
    unfolding isToken_def urlRegexExec_closed by (auto split: if_splits)
  then show "startsLikeUrl t \<and> (\<forall>c \<in> set t. nd c)"
    by (metis dropWhile_eq_Nil_conv takeWhile_eq_all_conv)
next
  assume a: "startsLikeUrl t \<and> (\<forall>c \<in> set t. nd c)"
  then have tw: "takeWhile nd t = t" and dw: "dropWhile nd t = []"
    by simp_all
  show "isToken t"
    unfolding isToken_def urlRegexExec_closed tw dw using a by simp
qed

lemma isToken_nonempty: "isToken t \<Longrightarrow> t \<noteq> []"
  unfolding isToken_iff startsLikeUrl_def by auto

lemma urlRegexExec_Some:
  assumes "urlRegexExec s = Some r"
  shows "s = take (length s - length r) s @ r" and "isToken (take (length s - length r) s)"
    and "r = [] \<or> isDelimiter (hd r)" and "length r < length s"
proof -
  from assms have st: "startsLikeUrl (takeWhile nd s)" and r: "r = dropWhile nd s"
    unfolding urlRegexExec_closed by (auto split: if_splits)
  have split: "s = takeWhile nd s @ r" using r by simp
  then have "length s = length (takeWhile nd s) + length r"
    by (metis length_append)
  then have tk: "take (length s - length r) s = takeWhile nd s"
    using split by (metis add_diff_cancel_right' append_eq_conv_conj)
  show "s = take (length s - length r) s @ r" using tk split by simp
  show "isToken (take (length s - length r) s)"
    unfolding tk isToken_iff using st by (auto dest: set_takeWhileD)
  show "r = [] \<or> isDelimiter (hd r)"
    unfolding r by (metis hd_dropWhile)
  have "takeWhile nd s \<noteq> []" using st unfolding startsLikeUrl_def by auto
  then show "length r < length s"
    using \<open>length s = length (takeWhile nd s) + length r\<close> by simp
qed

lemma urlRegexExec_token:
  assumes "isToken t" and "r = [] \<or> isDelimiter (hd r)"
  shows "urlRegexExec (t @ r) = Some r"
proof -
  from assms(1) have all: "\<forall>c \<in> set t. nd c" and st: "startsLikeUrl t"
    unfolding isToken_iff by auto
  from assms(2) have "takeWhile nd r = []" by (cases r) auto
  then have "takeWhile nd (t @ r) = t" "dropWhile nd (t @ r) = r"
    using all by (simp_all add: takeWhile_append2 dropWhile_append2)
       (metis takeWhile_dropWhile_id append_Nil)
  then show ?thesis unfolding urlRegexExec_closed using st by simp
qed

lemma urlRegexExec_prefix_token:
  assumes "isToken t"
  shows "urlRegexExec (t @ u) \<noteq> None"
proof -
  from assms have all: "\<forall>c \<in> set t. nd c" and st: "startsLikeUrl t"
    unfolding isToken_iff by auto
  have "takeWhile nd (t @ u) = t @ takeWhile nd u"
    using all by (simp add: takeWhile_append2)
  then show ?thesis
    unfolding urlRegexExec_closed using st by (simp add: startsLikeUrl_append)
qed

lemma urlRegexExec_delim: "s = [] \<or> isDelimiter (hd s) \<Longrightarrow> urlRegexExec s = None"
  unfolding urlRegexExec_closed by (cases s) (auto simp: startsLikeUrl_def)

lemma matchAll_tokens: "\<forall>t \<in> set (matchAll s). isToken t"
proof (induction s rule: matchAll.induct)
  case 1
  then show ?case by simp
next
  case (2 c cs)
  show ?case
  proof (cases "urlRegexExec (c # cs)")
    case None
    with 2 show ?thesis by simp
  next
    case (Some r)
    from urlRegexExec_Some [OF Some] 2 Some show ?thesis by simp
  qed
qed

lemma matchAll_token_append:
  assumes "isToken t" and "r = [] \<or> isDelimiter (hd r)"
  shows "matchAll (t @ r) = t # matchAll r"
proof -
  from assms(1) obtain c cs where t: "t = c # cs" by (cases t) (auto dest: isToken_nonempty)
  have "urlRegexExec ((c # cs) @ r) = Some r"
    using urlRegexExec_token [OF assms] t by simp
  then show ?thesis using t by simp
qed

lemma matchAll_delim: "isDelimiter c \<Longrightarrow> matchAll (c # cs) = matchAll cs"
  using urlRegexExec_delim [of "c # cs"] by simp

lemma matchAll_join:
  "\<forall>t \<in> set ts. isToken t \<Longrightarrow> matchAll (join [0x20] ts) = ts"
proof (induction ts)
  case Nil
  then show ?case by simp
next
  case (Cons x ts)
  show ?case
  proof (cases ts)
    case Nil
    then show ?thesis using Cons.prems matchAll_token_append [of x "[]"] by simp
  next
    case (Cons y ys)
    have d: "isDelimiter 0x20" by (simp add: isDelimiter_def isWhiteSpace_def)
    have "matchAll (x @ 0x20 # join [0x20] ts) = x # matchAll (0x20 # join [0x20] ts)"
      using Cons.prems d by (intro matchAll_token_append) simp_all
    also have "matchAll (0x20 # join [0x20] ts) = matchAll (join [0x20] ts)"
      using d by (rule matchAll_delim)
    also have "\<dots> = ts" using Cons.IH Cons.prems by simp
    finally show ?thesis using Cons by simp
  qed
qed


section \<open>Properties of the URL extractor\<close>

lemma extractUrls_JStr: "extractUrls (JStr s) = matchAll s"
  by (cases s) (simp_all add: extractUrls_def String_match_def Let_def)

lemma extractUrls_not_string: "typeof v \<noteq> TString \<Longrightarrow> extractUrls v = []"
  by (simp add: extractUrls_def)

lemma matchAll_no_match:
  "(\<And>u. suffix u s \<Longrightarrow> urlRegexExec u = None) \<Longrightarrow> matchAll s = []"
proof (induction s)
  case Nil
  then show ?case by simp
next
  case (Cons c cs)
  have "urlRegexExec (c # cs) = None" using Cons.prems by simp
  moreover have "matchAll cs = []"
    using Cons.prems by (intro Cons.IH) (simp add: suffix_Cons)
  ultimately show ?case by simp
qed

lemma matchAll_subseq: "subseq (concat (matchAll s)) s"
proof (induction s rule: matchAll.induct)
  case 1
  then show ?case by simp
next
  case (2 c cs)
  show ?case
  proof (cases "urlRegexExec (c # cs)")
    case None
    with 2 show ?thesis by (auto intro: list_emb_Cons)
  next
    case (Some r)
    note u = urlRegexExec_Some [OF Some]
    have "subseq (take (length (c # cs) - length r) (c # cs) @ concat (matchAll r))
            (take (length (c # cs) - length r) (c # cs) @ r)"
      using 2(2) [OF Some] u(4) by (simp only: subseq_append')
    then show ?thesis using Some u(1) u(4) by simp
  qed
qed

text \<open>
  Claim C10. \<open>extractUrls\<close> is a function of its argument alone: the model has no
  effect list and no error result, and the scan it runs has a termination proof. On a
  value that is not a string and on the empty string it returns the empty sequence, and
  so it does on a string in which the pattern matches at no position. Every element it
  returns is a match of the pattern, and the elements lie in the text from left to right
  without overlap.
\<close>

theorem extractUrls_total:
  "(typeof v \<noteq> TString \<longrightarrow> extractUrls v = [])
   \<and> extractUrls (JStr []) = []
   \<and> ((\<forall>u. suffix u s \<longrightarrow> urlRegexExec u = None) \<longrightarrow> extractUrls (JStr s) = [])
   \<and> (\<forall>t \<in> set (extractUrls v). urlRegexExec t = Some [])
   \<and> subseq (concat (extractUrls (JStr s))) s"
proof (intro conjI impI)
  show "extractUrls (JStr []) = []" by (simp add: extractUrls_JStr)
next
  assume "typeof v \<noteq> TString"
  then show "extractUrls v = []" by (rule extractUrls_not_string)
next
  assume "\<forall>u. suffix u s \<longrightarrow> urlRegexExec u = None"
  then show "extractUrls (JStr s) = []"
    unfolding extractUrls_JStr by (intro matchAll_no_match) blast
next
  show "\<forall>t \<in> set (extractUrls v). urlRegexExec t = Some []"
  proof (cases v)
    case (JStr s)
    then show ?thesis
      using matchAll_tokens [of s] by (simp add: extractUrls_JStr isToken_def)
  qed (simp_all add: extractUrls_def)
next
  show "subseq (concat (extractUrls (JStr s))) s"
    unfolding extractUrls_JStr by (rule matchAll_subseq)
qed

theorem extractUrls_total_witness:
  "typeof (JNum 7) \<noteq> TString \<and> extractUrls (JNum 7) = []
   \<and> list_all (\<lambda>u. urlRegexExec u = None) (suffixes (ascii ''no url''))
   \<and> extractUrls (JStr (ascii ''no url'')) = []
   \<and> extractUrls (JStr (ascii ''a www.b.c'')) = [ascii ''www.b.c'']
   \<and> urlRegexExec (ascii ''www.b.c'') = Some []"
proof -
  have l: "list_all (\<lambda>u. urlRegexExec u = None) (suffixes (ascii ''no url''))"
    by code_simp
  then have h: "\<forall>u. suffix u (ascii ''no url'') \<longrightarrow> urlRegexExec u = None"
    by (simp add: list_all_iff)
  have e: "extractUrls (JStr (ascii ''a www.b.c'')) = [ascii ''www.b.c'']"
    by code_simp
  show ?thesis
    using l h e extractUrls_total [of "JNum 7" "ascii ''no url''"]
          extractUrls_total [of "JStr (ascii ''a www.b.c'')" "[]"]
    by simp
qed

text \<open>
  Claim C7. Extracting the URLs of a message, joining them with one space and
  extracting again gives the same sequence of URLs. This holds for every argument, a
  string or not.
\<close>

theorem extraction_idempotent:
  "extractUrls (JStr (join (ascii '' '') (extractUrls message))) = extractUrls message"
proof (cases message)
  case (JStr s)
  have sp: "ascii '' '' = [0x20]" by (simp add: ascii_def)
  show ?thesis
    unfolding JStr extractUrls_JStr sp
    using matchAll_tokens by (intro matchAll_join) blast
qed (simp_all add: extractUrls_def)

section \<open>Properties of the shortening client and the retry wrapper\<close>

text \<open>\<open>shortenUrl\<close> sends one request and interprets the answer.\<close>

lemma requests_append: "requests (xs @ ys) = requests xs @ requests ys"
  by (induction xs rule: requests.induct) simp_all

lemma shortenUrl_unfold:
  "shortenUrl svc url apiKey a tr =
     (responseResult (svc (requests tr @ [requestFor url apiKey a])),
      tr @ [Request (requestFor url apiKey a)])"
  unfolding shortenUrl_def axios_get_def requestFor_def normalizeUrl_def
  by (simp only: Let_def prod.case)

lemma shortenUrl_fails:
  assumes "isl (fst (shortenUrl svc url apiKey a tr))"
  shows "\<exists>err. shortenUrl svc url apiKey a tr = (Inl err, tr @ [Request (requestFor url apiKey a)])"
  using assms unfolding shortenUrl_unfold
  by (cases "responseResult (svc (requests tr @ [requestFor url apiKey a]))") simp_all

lemma retry_step_fail:
  assumes "shortenUrl svc url apiKey a tr = (Inl err, tr')"
  shows "shortenUrlWithRetry svc url apiKey a retries tr =
     (if retries > 0 then shortenUrlWithRetry svc url apiKey a (retries - 1) (tr' @ [Delay 1000])
      else (Inr url, tr'))"
  by (subst shortenUrlWithRetry.simps) (simp add: assms)

lemma retry_step_ok:
  assumes "shortenUrl svc url apiKey a tr = (Inr short, tr')"
  shows "shortenUrlWithRetry svc url apiKey a retries tr = (Inr short, tr')"
  by (subst shortenUrlWithRetry.simps) (simp add: assms)

lemma retry_all_fail:
  assumes fails: "\<forall>tr. isl (fst (shortenUrl svc url apiKey a tr))"
  shows "retries = int n \<Longrightarrow>
         fst (shortenUrlWithRetry svc url apiKey a retries tr) = Inr url
       \<and> length (requests (snd (shortenUrlWithRetry svc url apiKey a retries tr)))
           = length (requests tr) + n + 1"
proof (induction n arbitrary: retries tr)
  case 0
  obtain err where s: "shortenUrl svc url apiKey a tr
      = (Inl err, tr @ [Request (requestFor url apiKey a)])"
    using fails shortenUrl_fails by blast
  show ?case
    unfolding retry_step_fail [OF s] using 0 by (simp add: requests_append)
next
  case (Suc n)
  obtain err where s: "shortenUrl svc url apiKey a tr
      = (Inl err, tr @ [Request (requestFor url apiKey a)])"
    using fails shortenUrl_fails by blast
  have r: "retries - 1 = int n" using Suc.prems by simp
  show ?case
    unfolding retry_step_fail [OF s]
    using Suc.prems Suc.IH [OF r, of "(tr @ [Request (requestFor url apiKey a)]) @ [Delay 1000]"]
    by (simp add: requests_append)
qed

text \<open>The request of \<open>shortenUrl\<close>, with the test on the scheme written out.\<close>

lemma shortenUrl_request:
  "snd (shortenUrl svc url apiKey a tr)
     = tr @ [Request \<lparr>req_api = apiKey,
               req_url = (if prefix (ascii ''http://'') url \<or> prefix (ascii ''https://'') url
                             \<or> prefix (ascii ''ftp://'') url
                          then url else ascii ''https://'' @ url),
               req_alias = (if a = [] then None else Some a)\<rparr>]"
  by (simp add: shortenUrl_unfold requestFor_def normalizeUrl_def startsWith_def)

text \<open>
  Whatever the service answers, the retry wrapper only sends requests for its URL and
  waits, and it returns normally after at least one request.
\<close>

lemma isCallFor_simps:
  "isCallFor u (Request (requestFor u apiKey a))" "isCallFor u (Delay n)"
  by (simp_all add: isCallFor_def requestFor_def)

lemma retry_trace:
  "nat retries = n \<Longrightarrow>
   \<exists>calls. snd (shortenUrlWithRetry svc u apiKey a retries tr) = tr @ calls
          \<and> list_all (isCallFor u) calls"
proof (induction n arbitrary: retries tr)
  case 0
  show ?case
  proof (cases "responseResult (svc (requests tr @ [requestFor u apiKey a]))")
    case (Inl err)
    then have s: "shortenUrl svc u apiKey a tr = (Inl err, tr @ [Request (requestFor u apiKey a)])"
      by (simp add: shortenUrl_unfold)
    show ?thesis
      unfolding retry_step_fail [OF s] using 0
      by (simp add: isCallFor_simps)
  next
    case (Inr short)
    then have s: "shortenUrl svc u apiKey a tr = (Inr short, tr @ [Request (requestFor u apiKey a)])"
      by (simp add: shortenUrl_unfold)
    show ?thesis
      unfolding retry_step_ok [OF s] by (simp add: isCallFor_simps)
  qed
next
  case (Suc n)
  show ?case
  proof (cases "responseResult (svc (requests tr @ [requestFor u apiKey a]))")
    case (Inl err)
    then have s: "shortenUrl svc u apiKey a tr = (Inl err, tr @ [Request (requestFor u apiKey a)])"
      by (simp add: shortenUrl_unfold)
    have "nat (retries - 1) = n" using Suc.prems by simp
    from Suc.IH [OF this, of "(tr @ [Request (requestFor u apiKey a)]) @ [Delay 1000]"]
    obtain calls where c: "snd (shortenUrlWithRetry svc u apiKey a (retries - 1)
          ((tr @ [Request (requestFor u apiKey a)]) @ [Delay 1000]))
          = ((tr @ [Request (requestFor u apiKey a)]) @ [Delay 1000]) @ calls"
      and l: "list_all (isCallFor u) calls" by blast
    have pos: "retries > 0" using Suc.prems by simp
    show ?thesis
      unfolding retry_step_fail [OF s] using pos c l
      by (intro exI [of _ "Request (requestFor u apiKey a) # Delay 1000 # calls"])
         (simp add: isCallFor_simps)
  next
    case (Inr short)
    then have s: "shortenUrl svc u apiKey a tr = (Inr short, tr @ [Request (requestFor u apiKey a)])"
      by (simp add: shortenUrl_unfold)
    show ?thesis
      unfolding retry_step_ok [OF s] by (simp add: isCallFor_simps)
  qed
qed

lemma retry_returns:
  "nat retries = n \<Longrightarrow>
   \<exists>v tr'. shortenUrlWithRetry svc u apiKey a retries tr = (Inr v, tr')
          \<and> length (requests tr) < length (requests tr')"
proof (induction n arbitrary: retries tr)
  case 0
  show ?case
  proof (cases "responseResult (svc (requests tr @ [requestFor u apiKey a]))")
    case (Inl err)
    then have s: "shortenUrl svc u apiKey a tr = (Inl err, tr @ [Request (requestFor u apiKey a)])"
      by (simp add: shortenUrl_unfold)
    show ?thesis
      unfolding retry_step_fail [OF s] using 0 by (simp add: requests_append)
  next
    case (Inr short)
    then have s: "shortenUrl svc u apiKey a tr = (Inr short, tr @ [Request (requestFor u apiKey a)])"
      by (simp add: shortenUrl_unfold)
    show ?thesis
      unfolding retry_step_ok [OF s] by (simp add: requests_append)
  qed
next
  case (Suc n)
  show ?case
  proof (cases "responseResult (svc (requests tr @ [requestFor u apiKey a]))")
    case (Inl err)
    then have s: "shortenUrl svc u apiKey a tr = (Inl err, tr @ [Request (requestFor u apiKey a)])"
      by (simp add: shortenUrl_unfold)
    have "nat (retries - 1) = n" using Suc.prems by simp
    from Suc.IH [OF this, of "(tr @ [Request (requestFor u apiKey a)]) @ [Delay 1000]"]
    obtain v tr' where "shortenUrlWithRetry svc u apiKey a (retries - 1)
          ((tr @ [Request (requestFor u apiKey a)]) @ [Delay 1000]) = (Inr v, tr')"
      and "length (requests ((tr @ [Request (requestFor u apiKey a)]) @ [Delay 1000]))
             < length (requests tr')" by blast
    moreover have "retries > 0" using Suc.prems by simp
    ultimately show ?thesis
      unfolding retry_step_fail [OF s] by (simp add: requests_append)
  next
    case (Inr short)
    then have s: "shortenUrl svc u apiKey a tr = (Inr short, tr @ [Request (requestFor u apiKey a)])"
      by (simp add: shortenUrl_unfold)
    show ?thesis
      unfolding retry_step_ok [OF s] by (simp add: requests_append)
  qed
qed

lemma retry_first_answer:
  assumes "responseResult (svc (requests tr @ [requestFor u apiKey a])) = Inr S"
  shows "shortenUrlWithRetry svc u apiKey a retries tr = (Inr S, tr @ [Request (requestFor u apiKey a)])"
  by (rule retry_step_ok) (simp add: shortenUrl_unfold assms)

text \<open>
  Claim C2. When every call of \<open>shortenUrl\<close> for the URL fails, \<open>shortenUrlWithRetry\<close>
  with a retry budget of at least zero returns normally, its result is the URL it was
  given, and it has sent exactly budget + 1 requests.
\<close>

theorem retry_fallback:
  assumes "\<forall>tr. isl (fst (shortenUrl svc url apiKey a tr))" and "0 \<le> retries"
  shows "fst (shortenUrlWithRetry svc url apiKey a retries tr) = Inr url
       \<and> length (requests (snd (shortenUrlWithRetry svc url apiKey a retries tr)))
           = length (requests tr) + (nat retries + 1)"
  using retry_all_fail [OF assms(1), of retries "nat retries" tr] assms(2) by simp

theorem retry_fallback_witness:
  "(\<forall>tr. isl (fst (shortenUrl unreachable (ascii ''www.a.b'') (ascii ''key'') [] tr)))
   \<and> 0 \<le> MAX_RETRIES
   \<and> fst (shortenUrlWithRetry unreachable (ascii ''www.a.b'') (ascii ''key'') [] MAX_RETRIES [])
       = Inr (ascii ''www.a.b'')
   \<and> length (requests (snd (shortenUrlWithRetry unreachable (ascii ''www.a.b'') (ascii ''key'') []
                                MAX_RETRIES []))) = 4"
proof -
  have f: "\<forall>tr. isl (fst (shortenUrl unreachable (ascii ''www.a.b'') (ascii ''key'') [] tr))"
    by (simp add: shortenUrl_unfold unreachable_def)
  have m: "0 \<le> MAX_RETRIES" by (simp add: MAX_RETRIES_def)
  show ?thesis
    using f m retry_fallback [OF f m, of "[]"] by (simp add: MAX_RETRIES_def)
qed

text \<open>
  Claim C8, at the input \<^verbatim>\<open>HTTP://a.io\<close>. The extractor returns this text as a URL,
  because the pattern compares the scheme without regard to letter case, and the text
  does begin with the scheme \<open>http://\<close> when letter case is ignored. \<open>shortenUrl\<close>
  compares with \<open>startsWith\<close>, which does regard letter case, and requests
  \<^verbatim>\<open>https://HTTP://a.io\<close> instead of the input.
\<close>

theorem shortenUrl_upper_case_scheme:
  "extractUrls (JStr (ascii ''HTTP://a.io'')) = [ascii ''HTTP://a.io'']
   \<and> matchLiteral (ascii ''http://'') (ascii ''HTTP://a.io'') = Some (ascii ''a.io'')
   \<and> snd (shortenUrl svc (ascii ''HTTP://a.io'') apiKey [] tr)
       = tr @ [Request \<lparr>req_api = apiKey, req_url = ascii ''https://HTTP://a.io'',
                         req_alias = None\<rparr>]"
proof (intro conjI)
  show "extractUrls (JStr (ascii ''HTTP://a.io'')) = [ascii ''HTTP://a.io'']"
    by code_simp
  show "matchLiteral (ascii ''http://'') (ascii ''HTTP://a.io'') = Some (ascii ''a.io'')"
    by code_simp
  have "normalizeUrl (ascii ''HTTP://a.io'') = ascii ''https://HTTP://a.io''"
    by code_simp
  then show "snd (shortenUrl svc (ascii ''HTTP://a.io'') apiKey [] tr)
       = tr @ [Request \<lparr>req_api = apiKey, req_url = ascii ''https://HTTP://a.io'',
                         req_alias = None\<rparr>]"
    by (simp add: shortenUrl_unfold requestFor_def)
qed

section \<open>Properties of the message processor\<close>

subsection \<open>Trimming, the marker test and the replacement\<close>

lemma whitespace_is_delimiter: "isWhiteSpace c \<Longrightarrow> isDelimiter c"
  by (simp add: isDelimiter_def)

lemma trim_no_whitespace:
  assumes "\<forall>c \<in> set t. \<not> isWhiteSpace c"
  shows "trim t = t"
proof -
  have "dropWhile isWhiteSpace t = t"
    using assms by (intro dropWhile_id) blast
  moreover have "dropWhile isWhiteSpace (rev t) = rev t"
    using assms by (intro dropWhile_id) simp
  ultimately show ?thesis by (simp add: trim_def)
qed

lemma trim_token: "isToken t \<Longrightarrow> trim t = t"
  unfolding isToken_iff by (intro trim_no_whitespace) (auto dest: whitespace_is_delimiter)

lemma String_includes_iff: "String_includes s t = sublist t s"
  by (induction s) (simp_all add: sublist_Cons_right)

lemma afterSchemeSeparator_suffix: "afterSchemeSeparator t = Some r \<Longrightarrow> suffix r t"
proof (induction t)
  case Nil
  then show ?case by simp
next
  case (Cons c cs)
  then show ?case
    by (auto split: if_splits intro: suffix_ConsI suffix_drop)
qed

lemma hostAsWritten_sublist: "sublist (hostAsWritten t) t"
proof -
  define afterScheme where "afterScheme = (case afterSchemeSeparator t of Some r \<Rightarrow> r | None \<Rightarrow> t)"
  define authority where "authority = takeWhile (\<lambda>c. c \<noteq> 0x2F \<and> c \<noteq> 0x3F \<and> c \<noteq> 0x23) afterScheme"
  define hostPort where "hostPort = rev (takeWhile (\<lambda>c. c \<noteq> 0x40) (rev authority))"
  have h: "hostAsWritten t = takeWhile (\<lambda>c. c \<noteq> 0x3A) hostPort"
    by (simp add: hostAsWritten_def afterScheme_def authority_def hostPort_def Let_def)
  have "sublist afterScheme t"
    unfolding afterScheme_def
    by (auto split: option.splits dest: afterSchemeSeparator_suffix)
  moreover have "sublist authority afterScheme"
    unfolding authority_def by simp
  moreover have "sublist hostPort authority"
    unfolding hostPort_def by (simp add: sublist_rev_left)
  moreover have "sublist (hostAsWritten t) hostPort"
    unfolding h by simp
  ultimately show ?thesis
    by (meson sublist_order.order.trans)
qed

lemma host_marker_included:
  "hostAsWritten t = ascii ''linkara.xyz'' \<Longrightarrow> String_includes t (ascii ''linkara.xyz'')"
  using hostAsWritten_sublist [of t] by (simp add: String_includes_iff)

text \<open>The escaped URL is a pattern for the URL itself, so the constructor never throws.\<close>

lemma RegExp_escapeRegExp: "RegExp (escapeRegExp u) = Some u"
proof (induction u)
  case Nil
  then show ?case by simp
next
  case (Cons c cs)
  show ?case
  proof (cases "isSyntaxChar c")
    case True
    then show ?thesis using Cons by simp
  next
    case False
    then have nb: "c \<noteq> 0x5C" by (auto simp: isSyntaxChar_def)
    show ?thesis
    proof (cases "escapeRegExp cs")
      case Nil
      then have "cs = []" by (cases cs) (simp_all split: if_splits)
      then show ?thesis using False by simp
    next
      case (Cons d rest)
      then show ?thesis using False nb Cons.IH by simp
    qed
  qed
qed

lemma getSubstitution_no_dollar:
  "0x24 \<notin> set t \<Longrightarrow> getSubstitution m b a t = t"
  by (induction m b a t rule: getSubstitution.induct) auto

lemma replaceScan_skip:
  "pat \<noteq> [] \<Longrightarrow> (\<forall>i < length p. \<not> prefix pat (drop i (p @ rest))) \<Longrightarrow>
     replaceScan pat t b (p @ rest) = p @ replaceScan pat t (b @ p) rest"
proof (induction p arbitrary: b)
  case Nil
  then show ?case by simp
next
  case (Cons c p)
  have "\<not> prefix pat (c # p @ rest)" using Cons.prems(2) by fastforce
  moreover have "\<forall>i < length p. \<not> prefix pat (drop i (p @ rest))"
    using Cons.prems(2) by fastforce
  ultimately show ?case using Cons.IH [of "b @ [c]"] Cons.prems(1) by simp
qed

lemma replaceScan_hit:
  "pat \<noteq> [] \<Longrightarrow>
     replaceScan pat t b (pat @ rest) = getSubstitution pat b rest t @ replaceScan pat t (b @ pat) rest"
  by (cases pat) simp_all

lemma replaceScan_none:
  "pat \<noteq> [] \<Longrightarrow> \<not> String_includes s pat \<Longrightarrow> replaceScan pat t b s = s"
  by (induction s arbitrary: b) simp_all

subsection \<open>Where the tokens lie in the message\<close>

text \<open>
  The first token of a scan sits behind a part of the message in which the pattern
  matches nowhere, and so no token starts there.
\<close>

lemma matchAll_Cons_decomp:
  "matchAll s = t # ts \<Longrightarrow>
     \<exists>p r. s = p @ t @ r \<and> matchAll r = ts \<and> isToken t
          \<and> (\<forall>i < length p. urlRegexExec (drop i s) = None)"
proof (induction s rule: matchAll.induct)
  case 1
  then show ?case by simp
next
  case (2 c cs)
  show ?case
  proof (cases "urlRegexExec (c # cs)")
    case None
    then have "matchAll cs = t # ts" using 2(4) by simp
    from 2(1) [OF None this] obtain p r where
      d: "cs = p @ t @ r" "matchAll r = ts" "isToken t"
        "\<forall>i < length p. urlRegexExec (drop i cs) = None" by blast
    have "\<forall>i < length (c # p). urlRegexExec (drop i (c # cs)) = None"
    proof (intro allI impI)
      fix i assume "i < length (c # p)"
      then show "urlRegexExec (drop i (c # cs)) = None"
        using None d(4) by (cases i) simp_all
    qed
    then show ?thesis using d by (intro exI [of _ "c # p"] exI [of _ r]) simp
  next
    case (Some rest)
    note u = urlRegexExec_Some [OF Some]
    have "t = take (length (c # cs) - length rest) (c # cs)" and "ts = matchAll rest"
      using 2(4) Some u(4) by simp_all
    then show ?thesis
      using u by (intro exI [of _ "[]"] exI [of _ rest]) simp
  qed
qed

lemma matchAll_Nil_no_match:
  "matchAll s = [] \<Longrightarrow> urlRegexExec (drop i s) = None"
proof (induction s arbitrary: i rule: matchAll.induct)
  case 1
  then show ?case by (simp add: urlRegexExec_delim)
next
  case (2 c cs)
  show ?case
  proof (cases "urlRegexExec (c # cs)")
    case None
    then have "matchAll cs = []" using 2(4) by simp
    then show ?thesis using 2(1) [OF None] None by (cases i) simp_all
  next
    case (Some rest)
    then show ?thesis using 2(4) by simp
  qed
qed

lemma token_not_prefix:
  assumes "isToken A" and "urlRegexExec u = None"
  shows "\<not> prefix A u"
proof
  assume "prefix A u"
  then obtain zs where "u = A @ zs" by (auto simp: prefix_def)
  then show False
    using urlRegexExec_prefix_token [OF assms(1), of zs] assms(2) by simp
qed

lemma not_includes: "A \<noteq> [] \<Longrightarrow> (\<And>i. \<not> prefix A (drop i s)) \<Longrightarrow> \<not> String_includes s A"
proof (induction s)
  case Nil
  then show ?case by simp
next
  case (Cons c cs)
  have "\<not> prefix A (c # cs)" using Cons.prems(2) [of 0] by simp
  moreover have "\<not> String_includes cs A"
    using Cons.prems(2) [of "Suc _"] Cons.prems(1) by (intro Cons.IH) simp_all
  ultimately show ?case by simp
qed

lemma replace_two_tokens:
  assumes "matchAll m = [A, A]" and "0x24 \<notin> set S"
  shows "\<exists>p q r. m = p @ A @ q @ A @ r \<and> String_replace m A S = p @ S @ q @ S @ r"
proof -
  from matchAll_Cons_decomp [OF assms(1)] obtain p r1 where
    m: "m = p @ A @ r1" and r1: "matchAll r1 = [A]" and tok: "isToken A"
    and np: "\<forall>i < length p. urlRegexExec (drop i m) = None" by blast
  from matchAll_Cons_decomp [OF r1] obtain q r where
    r1d: "r1 = q @ A @ r" and r: "matchAll r = []"
    and nq: "\<forall>i < length q. urlRegexExec (drop i r1) = None" by blast
  have ne: "A \<noteq> []" using tok by (rule isToken_nonempty)
  have 1: "\<forall>i < length p. \<not> prefix A (drop i (p @ A @ r1))"
    using np tok m by (auto dest: token_not_prefix)
  have 2: "\<forall>i < length q. \<not> prefix A (drop i (q @ A @ r))"
    using nq tok r1d by (auto dest: token_not_prefix)
  have 3: "\<not> String_includes r A"
    using ne tok matchAll_Nil_no_match [OF r] by (intro not_includes) (auto dest: token_not_prefix)
  have "String_replace m A S = p @ S @ q @ S @ r"
    unfolding String_replace_def m r1d
    using replaceScan_skip [OF ne 1 [unfolded r1d]]
          replaceScan_skip [OF ne 2]
    by (simp add: replaceScan_hit [OF ne] replaceScan_none [OF ne 3]
                  getSubstitution_no_dollar [OF assms(2)])
  then show ?thesis using m r1d by blast
qed

subsection \<open>One pass of the loop\<close>

lemma processUrl_skip:
  "String_includes (trim u) (ascii ''linkara.xyz'') \<Longrightarrow>
     processUrl svc apiKey u (msg, tr) = (msg, tr @ [Processing (trim u), Skipping (trim u)])"
  by (simp add: processUrl_def Let_def)

lemma processUrls_skip:
  "\<forall>u \<in> set us. isToken u \<and> String_includes u (ascii ''linkara.xyz'') \<Longrightarrow>
     processUrls svc apiKey us (msg, tr)
       = (msg, tr @ concat (map (\<lambda>u. [Processing u, Skipping u]) us))"
proof (induction us arbitrary: tr)
  case Nil
  then show ?case by simp
next
  case (Cons u us)
  then have "processUrl svc apiKey u (msg, tr) = (msg, tr @ [Processing u, Skipping u])"
    using processUrl_skip [of u svc apiKey msg tr] by (simp add: trim_token)
  then show ?case using Cons by simp
qed

lemma processMessage_string:
  "processMessage svc (JStr m) apiKey tr =
     (if matchAll m = [] then (Inr (JStr m), tr)
      else (Inr (JStr (fst (processUrls svc apiKey (matchAll m) (m, tr @ [FoundUrls (length (matchAll m))])))),
            snd (processUrls svc apiKey (matchAll m) (m, tr @ [FoundUrls (length (matchAll m))]))))"
  by (cases m) (simp_all add: processMessage_def String_match_def Let_def split: prod.splits)

lemma requests_skips: "requests (concat (map (\<lambda>u. [Processing u, Skipping u]) us)) = []"
  by (induction us) simp_all

lemma processUrl_eligible:
  assumes "trim u = u" and "\<not> String_includes u (ascii ''linkara.xyz'')"
    and "shortenUrlWithRetry svc u apiKey [] MAX_RETRIES (tr @ [Processing u]) = (Inr v, tr')"
  shows "processUrl svc apiKey u (msg, tr)
           = (if v \<noteq> u then (String_replace msg u v, tr' @ [Replaced u v])
              else (msg, tr' @ [ShorteningFailed u]))"
  using assms by (simp add: processUrl_def Let_def RegExp_escapeRegExp)

lemma String_replace_absent:
  "pat \<noteq> [] \<Longrightarrow> \<not> String_includes s pat \<Longrightarrow> String_replace s pat t = s"
  unfolding String_replace_def by (rule replaceScan_none)

lemma iterationOf_intro:
  "list_all (isCallFor u) calls \<Longrightarrow> isOutcomeFor u out \<Longrightarrow>
     iterationOf u (Processing u # calls @ [out])"
  by (simp add: iterationOf_def)

lemma processUrl_iteration:
  assumes "trim u = u"
  shows "\<exists>seg. snd (processUrl svc apiKey u (msg, tr)) = tr @ seg \<and> iterationOf u seg"
proof (cases "String_includes u (ascii ''linkara.xyz'')")
  case True
  then have "snd (processUrl svc apiKey u (msg, tr)) = tr @ (Processing u # [] @ [Skipping u])"
    using assms by (simp add: processUrl_def Let_def)
  moreover have "iterationOf u (Processing u # [] @ [Skipping u])"
    by (intro iterationOf_intro) (simp_all add: isOutcomeFor_def)
  ultimately show ?thesis by blast
next
  case False
  obtain calls where c: "snd (shortenUrlWithRetry svc u apiKey [] MAX_RETRIES (tr @ [Processing u]))
      = (tr @ [Processing u]) @ calls" and l: "list_all (isCallFor u) calls"
    using retry_trace [OF refl] by blast
  obtain res tr2 where r: "shortenUrlWithRetry svc u apiKey [] MAX_RETRIES (tr @ [Processing u]) = (res, tr2)"
    by (cases "shortenUrlWithRetry svc u apiKey [] MAX_RETRIES (tr @ [Processing u])")
  then have tr2: "tr2 = tr @ Processing u # calls" using c by simp
  have "\<exists>out. snd (processUrl svc apiKey u (msg, tr)) = tr2 @ [out] \<and> isOutcomeFor u out"
    using False assms r
    by (simp add: processUrl_def Let_def isOutcomeFor_def split: sum.splits option.splits)
  then obtain out where o: "snd (processUrl svc apiKey u (msg, tr)) = tr @ (Processing u # calls @ [out])"
    and io: "isOutcomeFor u out" using tr2 by auto
  have "iterationOf u (Processing u # calls @ [out])"
    using l io by (rule iterationOf_intro)
  with o show ?thesis by blast
qed

lemma processUrls_iterations:
  "\<forall>u \<in> set us. trim u = u \<Longrightarrow>
     \<exists>segs. snd (processUrls svc apiKey us (msg, tr)) = tr @ concat segs
           \<and> list_all2 iterationOf us segs"
proof (induction us arbitrary: msg tr)
  case Nil
  then show ?case by simp
next
  case (Cons u us)
  then obtain seg where s: "snd (processUrl svc apiKey u (msg, tr)) = tr @ seg"
    and i: "iterationOf u seg"
    using processUrl_iteration [of u svc apiKey msg tr] by auto
  obtain msg' where p: "processUrl svc apiKey u (msg, tr) = (msg', tr @ seg)"
    using s by (cases "processUrl svc apiKey u (msg, tr)") simp
  obtain segs where "snd (processUrls svc apiKey us (msg', tr @ seg)) = (tr @ seg) @ concat segs"
    and "list_all2 iterationOf us segs"
    using Cons.IH [of msg' "tr @ seg"] Cons.prems by auto
  then show ?case
    using p i by (intro exI [of _ "seg # segs"]) simp
qed

lemma processUrls_append:
  "processUrls svc apiKey (us @ vs) st = processUrls svc apiKey vs (processUrls svc apiKey us st)"
  by (induction us arbitrary: st) simp_all

text \<open>
  A replacement text without a dollar sign replaces the first occurrence as it stands
  and the scan goes on behind it. One pass of the loop appends its effects and, when it
  logs a replacement, has put the shortened URL into the running message.
\<close>

lemma replaceScan_preceding:
  "pat \<noteq> [] \<Longrightarrow> 0x24 \<notin> set t \<Longrightarrow> replaceScan pat t b s = replaceScan pat t b' s"
proof (induction s arbitrary: b b' rule: length_induct)
  case (1 s)
  show ?case
  proof (cases s)
    case Nil
    then show ?thesis using 1(2) by simp
  next
    case (Cons c cs)
    show ?thesis
    proof (cases "prefix pat (c # cs)")
      case True
      have "length (drop (length pat) (c # cs)) < length s"
        using 1(2) Cons by simp
      then have "replaceScan pat t (b @ pat) (drop (length pat) (c # cs))
               = replaceScan pat t (b' @ pat) (drop (length pat) (c # cs))"
        using 1 by blast
      then show ?thesis
        using True Cons 1(2) by (simp add: getSubstitution_no_dollar [OF 1(3)])
    next
      case False
      have "replaceScan pat t (b @ [c]) cs = replaceScan pat t (b' @ [c]) cs"
        using 1 Cons by simp
      then show ?thesis using False Cons 1(2) by simp
    qed
  qed
qed

lemma String_replace_first:
  assumes "A \<noteq> []" and "0x24 \<notin> set v"
    and "\<forall>j < length p. \<not> prefix A (drop j (p @ A @ r))"
  shows "String_replace (p @ A @ r) A v = p @ v @ String_replace r A v"
  unfolding String_replace_def
  using replaceScan_skip [OF assms(1) assms(3), of v "[]"]
        replaceScan_preceding [OF assms(1) assms(2), of "p @ A" r "[]"]
  by (simp add: replaceScan_hit [OF assms(1)] getSubstitution_no_dollar [OF assms(2)])

lemma processUrl_step:
  assumes "trim u = u"
  shows "\<exists>calls out.
           snd (processUrl svc apiKey u (msg, tr)) = tr @ Processing u # calls @ [out]
         \<and> list_all (isCallFor u) calls \<and> isOutcomeFor u out
         \<and> fst (processUrl svc apiKey u (msg, tr))
             = (case out of Replaced a v \<Rightarrow> String_replace msg u v | _ \<Rightarrow> msg)"
proof (cases "String_includes u (ascii ''linkara.xyz'')")
  case True
  then have "processUrl svc apiKey u (msg, tr) = (msg, tr @ Processing u # [] @ [Skipping u])"
    using processUrl_skip [of u svc apiKey msg tr] assms by simp
  then show ?thesis
    by (intro exI [of _ "[]"] exI [of _ "Skipping u"]) (simp add: isOutcomeFor_def)
next
  case False
  obtain v tr' where r: "shortenUrlWithRetry svc u apiKey [] MAX_RETRIES (tr @ [Processing u]) = (Inr v, tr')"
    using retry_returns [OF refl] by blast
  obtain calls where "snd (shortenUrlWithRetry svc u apiKey [] MAX_RETRIES (tr @ [Processing u]))
      = (tr @ [Processing u]) @ calls" and l: "list_all (isCallFor u) calls"
    using retry_trace [OF refl] by blast
  then have tr': "tr' = tr @ Processing u # calls" using r by simp
  note p = processUrl_eligible [OF assms False r, of msg]
  show ?thesis
  proof (cases "v = u")
    case True
    then show ?thesis
      using p l tr'
      by (intro exI [of _ calls] exI [of _ "ShorteningFailed u"]) (simp add: isOutcomeFor_def)
  next
    case False
    then show ?thesis
      using p l tr'
      by (intro exI [of _ calls] exI [of _ "Replaced u v"]) (simp add: isOutcomeFor_def)
  qed
qed

lemma loopState_Suc:
  assumes "i < length (extractUrls (JStr m))"
  shows "loopState svc apiKey m tr (Suc i)
           = processUrl svc apiKey (extractUrls (JStr m) ! i) (loopState svc apiKey m tr i)"
  unfolding loopState_def
  by (simp add: take_Suc_conv_app_nth [OF assms] processUrls_append)

lemma processMessage_loopState:
  assumes "extractUrls (JStr m) \<noteq> []"
  shows "processMessage svc (JStr m) apiKey tr
           = (case processUrls svc apiKey (drop i (extractUrls (JStr m)))
                     (loopState svc apiKey m tr i) of
                (msg, tr') \<Rightarrow> (Inr (JStr msg), tr'))"
proof -
  have ne: "matchAll m \<noteq> []" using assms by (simp add: extractUrls_JStr)
  have "processUrls svc apiKey (drop i (extractUrls (JStr m))) (loopState svc apiKey m tr i)
          = processUrls svc apiKey (take i (extractUrls (JStr m)) @ drop i (extractUrls (JStr m)))
              (m, tr @ [FoundUrls (length (extractUrls (JStr m)))])"
    unfolding loopState_def by (simp only: processUrls_append)
  then show ?thesis
    using ne by (simp add: processMessage_string extractUrls_JStr split: prod.splits)
qed


lemma loopState_0:
  "loopState svc apiKey m tr 0 = (m, tr @ [FoundUrls (length (extractUrls (JStr m)))])"
  by (simp add: loopState_def)

subsection \<open>The claims about \<open>processMessage\<close>\<close>

text \<open>
  Claim C5. On a string in which the extractor finds no URL, \<open>processMessage\<close> returns
  the string as it is and adds no effect: no request is sent.
\<close>

theorem no_urls_noop:
  "extractUrls (JStr s) = [] \<Longrightarrow> processMessage svc (JStr s) apiKey tr = (Inr (JStr s), tr)"
  by (simp add: processMessage_def extractUrls_def split: if_splits)

theorem no_urls_noop_witness:
  "extractUrls (JStr (ascii ''hello there'')) = []
   \<and> processMessage unreachable (JStr (ascii ''hello there'')) (ascii ''key'') []
       = (Inr (JStr (ascii ''hello there'')), [])"
proof -
  have h: "extractUrls (JStr (ascii ''hello there'')) = []" by code_simp
  show ?thesis using h no_urls_noop [OF h] by simp
qed

text \<open>
  Claim C9 as stated fails: for an argument that is not a string \<open>processMessage\<close>
  does return a value, the argument itself.
\<close>

theorem non_string_counterexample:
  "typeof (JNum 42) \<noteq> TString
   \<and> processMessage unreachable (JNum 42) (ascii ''key'') [] = (Inr (JNum 42), [])"
  by (simp add: processMessage_def)

text \<open>
  Claim C9, amended. For every argument that is not a string, \<open>processMessage\<close>
  returns the argument unchanged as an ordinary result, throws nothing and adds no
  effect.
\<close>

theorem non_string_returned:
  "typeof message \<noteq> TString \<Longrightarrow> processMessage svc message apiKey tr = (Inr message, tr)"
  by (simp add: processMessage_def)

theorem non_string_returned_witness:
  "typeof JUndefined \<noteq> TString
   \<and> processMessage unreachable JUndefined (ascii ''key'') [] = (Inr JUndefined, [])"
proof -
  have h: "typeof JUndefined \<noteq> TString" by simp
  show ?thesis using h non_string_returned [OF h] by simp
qed

text \<open>
  When every URL the extractor finds in a message names the host \<open>linkara.xyz\<close>
  written in lower case, the marker is in every token: \<open>processMessage\<close> returns the
  message unchanged and sends no request, and for each token, in extraction order, it
  logs the token and that it skips it.
\<close>

lemma skip_host_as_written:
  assumes "\<forall>t \<in> set (extractUrls (JStr m)). hostAsWritten t = ascii ''linkara.xyz''"
  shows "processMessage svc (JStr m) apiKey tr
           = (Inr (JStr m),
              tr @ (if extractUrls (JStr m) = [] then []
                    else FoundUrls (length (extractUrls (JStr m)))
                           # concat (map (\<lambda>u. [Processing u, Skipping u]) (extractUrls (JStr m)))))
       \<and> requests (snd (processMessage svc (JStr m) apiKey tr)) = requests tr"
proof -
  have "\<forall>u \<in> set (matchAll m). isToken u \<and> String_includes u (ascii ''linkara.xyz'')"
    using assms matchAll_tokens [of m] by (auto simp: extractUrls_JStr dest: host_marker_included)
  then have p: "\<And>tr'. processUrls svc apiKey (matchAll m) (m, tr')
       = (m, tr' @ concat (map (\<lambda>u. [Processing u, Skipping u]) (matchAll m)))"
    by (rule processUrls_skip)
  show ?thesis
    unfolding processMessage_string extractUrls_JStr
    by (simp add: p requests_append requests_skips)
qed

text \<open>
  Claim C3, at the message \<^verbatim>\<open>https://Linkara.xyz/ab\<close> with a service that answers
  \<^verbatim>\<open>https://linkara.xyz/q\<close>. The one URL of the message has the service's own domain
  as its host. The test \<open>includes('linkara.xyz')\<close> regards letter case, finds no marker
  and does not skip the token: a request is sent for it and the message is rewritten.
\<close>

theorem own_domain_not_skipped:
  "extractUrls (JStr (ascii ''https://Linkara.xyz/ab'')) = [ascii ''https://Linkara.xyz/ab'']
   \<and> hostOf (ascii ''https://Linkara.xyz/ab'') = ascii ''linkara.xyz''
   \<and> processMessage (alwaysReturns (ascii ''https://linkara.xyz/q''))
        (JStr (ascii ''https://Linkara.xyz/ab'')) (ascii ''key'') []
       = (Inr (JStr (ascii ''https://linkara.xyz/q'')),
          [FoundUrls 1,
           Processing (ascii ''https://Linkara.xyz/ab''),
           Request (requestFor (ascii ''https://Linkara.xyz/ab'') (ascii ''key'') []),
           Replaced (ascii ''https://Linkara.xyz/ab'') (ascii ''https://linkara.xyz/q'')])"
  by code_simp

text \<open>
  Claim C4, at the message \<^verbatim>\<open>http://a.co http://a.co/linkara.xyz\<close> with a service that
  answers \<^verbatim>\<open>http://l.ra/x\<close>. The second token contains the marker in its path, is
  skipped and causes no request. The first token is shortened, and its replacement
  rewrites every occurrence of its text, also the one inside the second token: the
  skipped token is not in the returned message any more.
\<close>

theorem skipped_token_rewritten:
  "extractUrls (JStr (ascii ''http://a.co http://a.co/linkara.xyz''))
     = [ascii ''http://a.co'', ascii ''http://a.co/linkara.xyz'']
   \<and> String_includes (ascii ''http://a.co/linkara.xyz'') (ascii ''linkara.xyz'')
   \<and> processMessage (alwaysReturns (ascii ''http://l.ra/x''))
        (JStr (ascii ''http://a.co http://a.co/linkara.xyz'')) (ascii ''key'') []
       = (Inr (JStr (ascii ''http://l.ra/x http://l.ra/x/linkara.xyz'')),
          [FoundUrls 2,
           Processing (ascii ''http://a.co''),
           Request (requestFor (ascii ''http://a.co'') (ascii ''key'') []),
           Replaced (ascii ''http://a.co'') (ascii ''http://l.ra/x''),
           Processing (ascii ''http://a.co/linkara.xyz''),
           Skipping (ascii ''http://a.co/linkara.xyz'')])
   \<and> \<not> String_includes (ascii ''http://l.ra/x http://l.ra/x/linkara.xyz'')
         (ascii ''http://a.co/linkara.xyz'')"
  by code_simp

text \<open>
  Claim C6. The extracted URLs are dealt with one after the other in extraction order.
  \<open>loopState\<close> gives the running message and the effects at the head of the loop; it
  starts with the message as received. The pass for the URL at position \<open>i\<close> takes
  the state left by the passes before it and appends its own effects: the line
  \<open>Processing URL\<close>, the requests for this URL, and one line for the outcome. When that
  line records a replacement, the running message of the next state is the one before
  with the URL replaced by the shortened value; otherwise it is the one before. So when
  the requests for a later URL are sent, the substitution of every earlier URL is
  already in the running message and its line is already in the effects. The result of
  \<open>processMessage\<close> is the state after the remaining passes. The replacement itself
  puts the replacement text where the first occurrence stood and goes on behind it, and
  leaves a text without an occurrence as it is. The effects as a whole are one segment
  for each URL, in extraction order.
\<close>

theorem sequential_order:
  "(extractUrls (JStr m) \<noteq> [] \<longrightarrow>
      (\<exists>segs. snd (processMessage svc (JStr m) apiKey tr)
                 = tr @ FoundUrls (length (extractUrls (JStr m))) # concat segs
             \<and> list_all2 iterationOf (extractUrls (JStr m)) segs))
   \<and> processUrls svc apiKey (us @ vs) st = processUrls svc apiKey vs (processUrls svc apiKey us st)
   \<and> loopState svc apiKey m tr 0 = (m, tr @ [FoundUrls (length (extractUrls (JStr m)))])
   \<and> (i < length (extractUrls (JStr m)) \<longrightarrow>
        loopState svc apiKey m tr (Suc i)
          = processUrl svc apiKey (extractUrls (JStr m) ! i) (loopState svc apiKey m tr i)
      \<and> (\<exists>calls out.
            snd (loopState svc apiKey m tr (Suc i))
              = snd (loopState svc apiKey m tr i)
                  @ Processing (extractUrls (JStr m) ! i) # calls @ [out]
          \<and> list_all (isCallFor (extractUrls (JStr m) ! i)) calls
          \<and> isOutcomeFor (extractUrls (JStr m) ! i) out
          \<and> fst (loopState svc apiKey m tr (Suc i))
              = (case out of
                   Replaced a short \<Rightarrow>
                     String_replace (fst (loopState svc apiKey m tr i)) (extractUrls (JStr m) ! i) short
                 | _ \<Rightarrow> fst (loopState svc apiKey m tr i)))
      \<and> processMessage svc (JStr m) apiKey tr
          = (case processUrls svc apiKey (drop (Suc i) (extractUrls (JStr m)))
                    (loopState svc apiKey m tr (Suc i)) of
               (msg, tr') \<Rightarrow> (Inr (JStr msg), tr')))
   \<and> (A \<noteq> [] \<and> 0x24 \<notin> set v \<and> (\<forall>j < length p. \<not> prefix A (drop j (p @ A @ r))) \<longrightarrow>
        String_replace (p @ A @ r) A v = p @ v @ String_replace r A v)
   \<and> (A \<noteq> [] \<and> \<not> String_includes s A \<longrightarrow> String_replace s A v = s)"
proof (intro conjI impI)
  assume ne: "extractUrls (JStr m) \<noteq> []"
  have "\<forall>u \<in> set (matchAll m). trim u = u"
    using matchAll_tokens [of m] by (auto dest: trim_token)
  from processUrls_iterations [OF this, of svc apiKey m "tr @ [FoundUrls (length (matchAll m))]"]
  obtain segs where "snd (processUrls svc apiKey (matchAll m) (m, tr @ [FoundUrls (length (matchAll m))]))
      = (tr @ [FoundUrls (length (matchAll m))]) @ concat segs"
    and "list_all2 iterationOf (matchAll m) segs" by blast
  then show "\<exists>segs. snd (processMessage svc (JStr m) apiKey tr)
                 = tr @ FoundUrls (length (extractUrls (JStr m))) # concat segs
             \<and> list_all2 iterationOf (extractUrls (JStr m)) segs"
    using ne unfolding processMessage_string extractUrls_JStr
    by (intro exI [of _ segs]) simp
next
  show "processUrls svc apiKey (us @ vs) st = processUrls svc apiKey vs (processUrls svc apiKey us st)"
    by (rule processUrls_append)
next
  show "loopState svc apiKey m tr 0 = (m, tr @ [FoundUrls (length (extractUrls (JStr m)))])"
    by (rule loopState_0)
next
  assume i: "i < length (extractUrls (JStr m))"
  show step: "loopState svc apiKey m tr (Suc i)
          = processUrl svc apiKey (extractUrls (JStr m) ! i) (loopState svc apiKey m tr i)"
    using i by (rule loopState_Suc)
  have "extractUrls (JStr m) ! i \<in> set (matchAll m)"
    using i by (simp add: extractUrls_JStr)
  then have t: "trim (extractUrls (JStr m) ! i) = extractUrls (JStr m) ! i"
    using matchAll_tokens [of m] by (auto dest: trim_token)
  show "\<exists>calls out.
            snd (loopState svc apiKey m tr (Suc i))
              = snd (loopState svc apiKey m tr i)
                  @ Processing (extractUrls (JStr m) ! i) # calls @ [out]
          \<and> list_all (isCallFor (extractUrls (JStr m) ! i)) calls
          \<and> isOutcomeFor (extractUrls (JStr m) ! i) out
          \<and> fst (loopState svc apiKey m tr (Suc i))
              = (case out of
                   Replaced a short \<Rightarrow>
                     String_replace (fst (loopState svc apiKey m tr i)) (extractUrls (JStr m) ! i) short
                 | _ \<Rightarrow> fst (loopState svc apiKey m tr i))"
    unfolding step
    using processUrl_step [OF t, of svc apiKey "fst (loopState svc apiKey m tr i)"
                             "snd (loopState svc apiKey m tr i)"]
    by simp
  have "extractUrls (JStr m) \<noteq> []" using i by auto
  then show "processMessage svc (JStr m) apiKey tr
          = (case processUrls svc apiKey (drop (Suc i) (extractUrls (JStr m)))
                    (loopState svc apiKey m tr (Suc i)) of
               (msg, tr') \<Rightarrow> (Inr (JStr msg), tr'))"
    by (rule processMessage_loopState)
next
  assume "A \<noteq> [] \<and> 0x24 \<notin> set v \<and> (\<forall>j < length p. \<not> prefix A (drop j (p @ A @ r)))"
  then show "String_replace (p @ A @ r) A v = p @ v @ String_replace r A v"
    by (intro String_replace_first) simp_all
next
  assume "A \<noteq> [] \<and> \<not> String_includes s A"
  then show "String_replace s A v = s"
    by (intro String_replace_absent) simp_all
qed

theorem sequential_order_witness:
  "extractUrls (JStr (ascii ''www.a.b http://c.d'')) = [ascii ''www.a.b'', ascii ''http://c.d'']
   \<and> loopState (alwaysReturns (ascii ''http://l.ra/x'')) (ascii ''key'')
        (ascii ''www.a.b http://c.d'') [] 1
       = (ascii ''http://l.ra/x http://c.d'',
          [FoundUrls 2,
           Processing (ascii ''www.a.b''),
           Request (requestFor (ascii ''www.a.b'') (ascii ''key'') []),
           Replaced (ascii ''www.a.b'') (ascii ''http://l.ra/x'')])
   \<and> (\<exists>calls out.
          snd (loopState (alwaysReturns (ascii ''http://l.ra/x'')) (ascii ''key'')
                 (ascii ''www.a.b http://c.d'') [] (Suc 1))
            = snd (loopState (alwaysReturns (ascii ''http://l.ra/x'')) (ascii ''key'')
                     (ascii ''www.a.b http://c.d'') [] 1)
                @ Processing (extractUrls (JStr (ascii ''www.a.b http://c.d'')) ! 1) # calls @ [out]
        \<and> list_all (isCallFor (extractUrls (JStr (ascii ''www.a.b http://c.d'')) ! 1)) calls
        \<and> isOutcomeFor (extractUrls (JStr (ascii ''www.a.b http://c.d'')) ! 1) out
        \<and> fst (loopState (alwaysReturns (ascii ''http://l.ra/x'')) (ascii ''key'')
                 (ascii ''www.a.b http://c.d'') [] (Suc 1))
            = (case out of
                 Replaced a short \<Rightarrow>
                   String_replace
                     (fst (loopState (alwaysReturns (ascii ''http://l.ra/x'')) (ascii ''key'')
                             (ascii ''www.a.b http://c.d'') [] 1))
                     (extractUrls (JStr (ascii ''www.a.b http://c.d'')) ! 1) short
               | _ \<Rightarrow> fst (loopState (alwaysReturns (ascii ''http://l.ra/x'')) (ascii ''key'')
                             (ascii ''www.a.b http://c.d'') [] 1)))
   \<and> (\<exists>segs. snd (processMessage (alwaysReturns (ascii ''http://l.ra/x''))
                   (JStr (ascii ''www.a.b http://c.d'')) (ascii ''key'') [])
                 = [] @ FoundUrls (length (extractUrls (JStr (ascii ''www.a.b http://c.d''))))
                          # concat segs
             \<and> list_all2 iterationOf (extractUrls (JStr (ascii ''www.a.b http://c.d''))) segs)
   \<and> String_replace ([] @ ascii ''www.a.b'' @ ascii '' http://c.d'') (ascii ''www.a.b'')
        (ascii ''http://l.ra/x'')
       = [] @ ascii ''http://l.ra/x''
            @ String_replace (ascii '' http://c.d'') (ascii ''www.a.b'') (ascii ''http://l.ra/x'')
   \<and> String_replace (ascii '' http://c.d'') (ascii ''www.a.b'') (ascii ''http://l.ra/x'')
       = ascii '' http://c.d''
   \<and> processMessage (alwaysReturns (ascii ''http://l.ra/x''))
        (JStr (ascii ''www.a.b http://c.d'')) (ascii ''key'') []
       = (Inr (JStr (ascii ''http://l.ra/x http://l.ra/x'')),
          [FoundUrls 2,
           Processing (ascii ''www.a.b''),
           Request (requestFor (ascii ''www.a.b'') (ascii ''key'') []),
           Replaced (ascii ''www.a.b'') (ascii ''http://l.ra/x''),
           Processing (ascii ''http://c.d''),
           Request (requestFor (ascii ''http://c.d'') (ascii ''key'') []),
           Replaced (ascii ''http://c.d'') (ascii ''http://l.ra/x'')])"
proof -
  have e: "extractUrls (JStr (ascii ''www.a.b http://c.d''))
             = [ascii ''www.a.b'', ascii ''http://c.d'']" by code_simp
  then have ne: "extractUrls (JStr (ascii ''www.a.b http://c.d'')) \<noteq> []"
    and i: "1 < length (extractUrls (JStr (ascii ''www.a.b http://c.d'')))" by simp_all
  have a: "ascii ''www.a.b'' \<noteq> [] \<and> 0x24 \<notin> set (ascii ''http://l.ra/x'')
        \<and> (\<forall>j < length ([]::jsstring).
              \<not> prefix (ascii ''www.a.b'') (drop j ([] @ ascii ''www.a.b'' @ ascii '' http://c.d'')))"
    by (simp add: ascii_def)
  have b: "ascii ''www.a.b'' \<noteq> [] \<and> \<not> String_includes (ascii '' http://c.d'') (ascii ''www.a.b'')"
    by code_simp
  note t = sequential_order
    [where m = "ascii ''www.a.b http://c.d''" and svc = "alwaysReturns (ascii ''http://l.ra/x'')"
       and apiKey = "ascii ''key''" and tr = "[]" and i = 1
       and A = "ascii ''www.a.b''" and v = "ascii ''http://l.ra/x''" and p = "[]"
       and r = "ascii '' http://c.d''" and s = "ascii '' http://c.d''"
       and us = "[]" and vs = "[]" and st = "(ascii ''www.a.b http://c.d'', [])"]
  note t1 = t [THEN conjunct1, rule_format, OF ne]
  note t4 = t [THEN conjunct2, THEN conjunct2, THEN conjunct2, THEN conjunct1, rule_format, OF i,
               THEN conjunct2, THEN conjunct1]
  note t5 = t [THEN conjunct2, THEN conjunct2, THEN conjunct2, THEN conjunct2, THEN conjunct1,
               rule_format, OF a]
  note t6 = t [THEN conjunct2, THEN conjunct2, THEN conjunct2, THEN conjunct2, THEN conjunct2,
               rule_format, OF b]
  have l: "loopState (alwaysReturns (ascii ''http://l.ra/x'')) (ascii ''key'')
        (ascii ''www.a.b http://c.d'') [] 1
       = (ascii ''http://l.ra/x http://c.d'',
          [FoundUrls 2,
           Processing (ascii ''www.a.b''),
           Request (requestFor (ascii ''www.a.b'') (ascii ''key'') []),
           Replaced (ascii ''www.a.b'') (ascii ''http://l.ra/x'')])" by code_simp
  have f: "processMessage (alwaysReturns (ascii ''http://l.ra/x''))
        (JStr (ascii ''www.a.b http://c.d'')) (ascii ''key'') []
       = (Inr (JStr (ascii ''http://l.ra/x http://l.ra/x'')),
          [FoundUrls 2,
           Processing (ascii ''www.a.b''),
           Request (requestFor (ascii ''www.a.b'') (ascii ''key'') []),
           Replaced (ascii ''www.a.b'') (ascii ''http://l.ra/x''),
           Processing (ascii ''http://c.d''),
           Request (requestFor (ascii ''http://c.d'') (ascii ''key'') []),
           Replaced (ascii ''http://c.d'') (ascii ''http://l.ra/x'')])" by code_simp
  show ?thesis
    by (intro conjI e l t4 t1 t5 t6 f)
qed

text \<open>
  Claim C1 as stated fails: in the message
  \<^verbatim>\<open>check http://foo.com and http://foo.com again\<close> the URL is extracted twice and two
  requests are sent, not one.
\<close>

theorem duplicate_counterexample:
  "extractUrls (JStr (ascii ''check http://foo.com and http://foo.com again''))
     = [ascii ''http://foo.com'', ascii ''http://foo.com'']
   \<and> length (requests (snd (processMessage (alwaysReturns (ascii ''http://lnk.ra/x1''))
         (JStr (ascii ''check http://foo.com and http://foo.com again'')) (ascii ''key'') []))) = 2"
  by code_simp

text \<open>
  Claim C1, amended. Let the extractor find the URL \<open>A\<close> twice in a message and
  nothing else, let \<open>A\<close> not contain the marker, and let the service answer the first
  request with \<open>S\<close>, which differs from \<open>A\<close> and contains no dollar sign. Then a
  request is sent for each of the two occurrences, so at least two in all. The first
  substitution replaces both occurrences of \<open>A\<close> by \<open>S\<close>; when \<open>A\<close> does not occur
  in the message after that, the result is the message with both occurrences replaced
  by \<open>S\<close>, whatever the service answers to the later requests.
\<close>

theorem duplicate_consistency:
  assumes "extractUrls (JStr m) = [A, A]"
    and "\<not> String_includes A (ascii ''linkara.xyz'')"
    and "responseResult (svc (requests tr @ [requestFor A apiKey []])) = Inr S"
    and "S \<noteq> A" and "0x24 \<notin> set S"
    and "\<not> String_includes (String_replace m A S) A"
  shows "\<exists>p q r. m = p @ A @ q @ A @ r
       \<and> fst (processMessage svc (JStr m) apiKey tr) = Inr (JStr (p @ S @ q @ S @ r))
       \<and> length (requests tr) + 2 \<le> length (requests (snd (processMessage svc (JStr m) apiKey tr)))"
proof -
  have ma: "matchAll m = [A, A]" using assms(1) by (simp add: extractUrls_JStr)
  then have tok: "isToken A" using matchAll_tokens [of m] by simp
  then have tr: "trim A = A" and ne: "A \<noteq> []"
    by (simp_all add: trim_token isToken_nonempty)
  from replace_two_tokens [OF ma assms(5)] obtain p q r where
    m: "m = p @ A @ q @ A @ r" and rep: "String_replace m A S = p @ S @ q @ S @ r" by blast
  define tr1 where "tr1 = tr @ [FoundUrls (Suc (Suc 0)), Processing A, Request (requestFor A apiKey [])]"
  have "shortenUrlWithRetry svc A apiKey [] MAX_RETRIES ((tr @ [FoundUrls (Suc (Suc 0))]) @ [Processing A])
          = (Inr S, tr1)"
    unfolding tr1_def using assms(3)
    by (subst retry_first_answer [where S = S]) (simp_all add: requests_append)
  from processUrl_eligible [OF tr assms(2) this]
  have first: "processUrl svc apiKey A (m, tr @ [FoundUrls (Suc (Suc 0))])
                 = (p @ S @ q @ S @ r, tr1 @ [Replaced A S])"
    using assms(4) rep by simp
  obtain v tr2 where second: "shortenUrlWithRetry svc A apiKey [] MAX_RETRIES
        ((tr1 @ [Replaced A S]) @ [Processing A]) = (Inr v, tr2)"
    and more: "length (requests ((tr1 @ [Replaced A S]) @ [Processing A])) < length (requests tr2)"
    using retry_returns [OF refl] by blast
  have absent: "\<not> String_includes (p @ S @ q @ S @ r) A" using assms(6) rep by simp
  have snd_pass: "processUrl svc apiKey A (p @ S @ q @ S @ r, tr1 @ [Replaced A S])
       = (p @ S @ q @ S @ r, tr2 @ [if v \<noteq> A then Replaced A v else ShorteningFailed A])"
    using processUrl_eligible [OF tr assms(2) second]
    by (simp add: String_replace_absent [OF ne absent])
  have count: "length (requests tr) + 2 \<le> length (requests tr2)"
    using more by (simp add: tr1_def requests_append)
  have "processMessage svc (JStr m) apiKey tr
          = (Inr (JStr (p @ S @ q @ S @ r)),
             tr2 @ [if v \<noteq> A then Replaced A v else ShorteningFailed A])"
    unfolding processMessage_string ma by (simp add: first snd_pass)
  then show ?thesis using m count by (auto simp: requests_append)
qed

theorem duplicate_consistency_witness:
  "extractUrls (JStr (ascii ''check http://foo.com and http://foo.com again''))
     = [ascii ''http://foo.com'', ascii ''http://foo.com'']
   \<and> \<not> String_includes (ascii ''http://foo.com'') (ascii ''linkara.xyz'')
   \<and> responseResult (alwaysReturns (ascii ''http://lnk.ra/x1'')
         (requests [] @ [requestFor (ascii ''http://foo.com'') (ascii ''key'') []]))
       = Inr (ascii ''http://lnk.ra/x1'')
   \<and> \<not> String_includes
         (String_replace (ascii ''check http://foo.com and http://foo.com again'')
            (ascii ''http://foo.com'') (ascii ''http://lnk.ra/x1''))
         (ascii ''http://foo.com'')
   \<and> (\<exists>p q r. ascii ''check http://foo.com and http://foo.com again''
                  = p @ ascii ''http://foo.com'' @ q @ ascii ''http://foo.com'' @ r
          \<and> fst (processMessage (alwaysReturns (ascii ''http://lnk.ra/x1''))
                    (JStr (ascii ''check http://foo.com and http://foo.com again''))
                    (ascii ''key'') [])
              = Inr (JStr (p @ ascii ''http://lnk.ra/x1'' @ q @ ascii ''http://lnk.ra/x1'' @ r))
          \<and> length (requests []) + 2
              \<le> length (requests (snd (processMessage (alwaysReturns (ascii ''http://lnk.ra/x1''))
                    (JStr (ascii ''check http://foo.com and http://foo.com again''))
                    (ascii ''key'') []))))
   \<and> fst (processMessage (alwaysReturns (ascii ''http://lnk.ra/x1''))
               (JStr (ascii ''check http://foo.com and http://foo.com again'')) (ascii ''key'') [])
       = Inr (JStr (ascii ''check http://lnk.ra/x1 and http://lnk.ra/x1 again''))"
proof -
  have h1: "extractUrls (JStr (ascii ''check http://foo.com and http://foo.com again''))
     = [ascii ''http://foo.com'', ascii ''http://foo.com'']" by code_simp
  have h2: "\<not> String_includes (ascii ''http://foo.com'') (ascii ''linkara.xyz'')" by code_simp
  have h3: "responseResult (alwaysReturns (ascii ''http://lnk.ra/x1'')
         (requests [] @ [requestFor (ascii ''http://foo.com'') (ascii ''key'') []]))
       = Inr (ascii ''http://lnk.ra/x1'')"
    by (simp add: alwaysReturns_def ascii_def)
  have h4: "ascii ''http://lnk.ra/x1'' \<noteq> ascii ''http://foo.com''" by (simp add: ascii_def)
  have h5: "0x24 \<notin> set (ascii ''http://lnk.ra/x1'')" by (simp add: ascii_def)
  have h6: "\<not> String_includes
         (String_replace (ascii ''check http://foo.com and http://foo.com again'')
            (ascii ''http://foo.com'') (ascii ''http://lnk.ra/x1''))
         (ascii ''http://foo.com'')" by code_simp
  have r: "fst (processMessage (alwaysReturns (ascii ''http://lnk.ra/x1''))
               (JStr (ascii ''check http://foo.com and http://foo.com again'')) (ascii ''key'') [])
       = Inr (JStr (ascii ''check http://lnk.ra/x1 and http://lnk.ra/x1 again''))" by code_simp
  note t = duplicate_consistency
      [where svc = "alwaysReturns (ascii ''http://lnk.ra/x1'')" and tr = "[]",
       OF h1 h2 h3 h4 h5 h6]
  show ?thesis
    by (intro conjI h1 h2 h3 h6 t r)
qed

end
